theory Spec2Isabelle
  imports Main "HOL-Library.Multiset" "HOL-Library.Char_ord" "HOL-Library.List_Lexorder"
begin

section \<open>The smart grid simulator: data model\<close>

text \<open>
  A shallow embedding of \<^verbatim>\<open>Smartgridsimulator.cpp\<close>. The classes become records, the member
  functions become functions from the old object state to the new one. Console output is
  not part of the state and is modelled only where a claim reads it (the two totals logged
  by a cycle, and the order of the trip and reconnect lines).

  The C++ \<^verbatim>\<open>float\<close> is the type parameter \<open>'a\<close>. The definitions ask only for the
  operations the code applies to it (\<open>0\<close>, \<open>1\<close>, \<open>+\<close>, \<open>-\<close>, \<open><\<close>, \<open>\<le>\<close>) and assume no law
  about them, so a theorem stated for every such \<open>'a\<close> does not depend on rounding. A
  theorem that needs exact arithmetic says so in its sort constraint.
\<close>

subsection \<open>Breaker\<close>

record Breaker =
  id' :: string
  tripped :: bool

text \<open>The two constructors \<^verbatim>\<open>Breaker()\<close> and \<^verbatim>\<open>Breaker(i)\<close>, and the member functions.\<close>

definition Breaker_default :: Breaker where
  "Breaker_default = \<lparr>id' = ''unknown'', tripped = False\<rparr>"

definition Breaker_of :: "string \<Rightarrow> Breaker" where
  "Breaker_of i = \<lparr>id' = i, tripped = False\<rparr>"

definition trip :: "Breaker \<Rightarrow> Breaker" where
  "trip b = b\<lparr>tripped := True\<rparr>"

definition reset :: "Breaker \<Rightarrow> Breaker" where
  "reset b = b\<lparr>tripped := False\<rparr>"

definition isTripped :: "Breaker \<Rightarrow> bool" where
  "isTripped b = tripped b"

subsection \<open>Power sources\<close>

text \<open>
  \<^verbatim>\<open>PowerComponent\<close> is abstract; its only concrete subclasses are \<^verbatim>\<open>PowerSource\<close> and
  \<^verbatim>\<open>SolarSource\<close> (which derives from \<^verbatim>\<open>PowerSource\<close>), so every element of the \<^verbatim>\<open>sources\<close>
  vector is a \<^verbatim>\<open>PowerSource\<close> and the \<^verbatim>\<open>dynamic_cast\<close> of the cycle never yields null. The
  field \<open>solar\<close> records the dynamic type.
\<close>

record 'a PowerComponent =
  name :: string
  status :: bool
  powerOutput :: 'a
  renewable :: bool
  solar :: bool

text \<open>
  The conversion of a small non-negative \<^verbatim>\<open>int\<close> to \<^verbatim>\<open>float\<close>, written with the operations
  of \<open>'a\<close> alone. (For the values the program converts, all below 2^24, counting up by one
  is exact in IEEE single precision.)
\<close>

primrec float_of_nat :: "nat \<Rightarrow> 'a::{zero,one,plus}" where
  "float_of_nat 0 = 0"
| "float_of_nat (Suc n) = float_of_nat n + 1"

definition PowerSource :: "string \<Rightarrow> 'a \<Rightarrow> bool \<Rightarrow> 'a PowerComponent" where
  "PowerSource n p r = \<lparr>name = n, status = True, powerOutput = p, renewable = r, solar = False\<rparr>"

definition SolarSource :: "string \<Rightarrow> 'a::{zero,one,plus} PowerComponent" where
  "SolarSource n = \<lparr>name = n, status = True, powerOutput = float_of_nat 50, renewable = True, solar = True\<rparr>"

text \<open>
  The virtual \<^verbatim>\<open>simulate()\<close> of a source. \<^verbatim>\<open>PowerSource::simulate\<close> only prints;
  \<^verbatim>\<open>SolarSource::simulate\<close> draws \<^verbatim>\<open>20 + std::rand() % 30\<close> when the source is connected. The
  state of the C library's generator is the sequence \<open>rs\<close> of the results \<^verbatim>\<open>std::rand()\<close>
  will return; a draw takes \<open>rs 0\<close> and shifts the sequence.
\<close>

definition simulate_source ::
  "'a::{zero,one,plus} PowerComponent \<Rightarrow> (nat \<Rightarrow> nat) \<Rightarrow> 'a PowerComponent \<times> (nat \<Rightarrow> nat)" where
  "simulate_source src rs =
     (if solar src \<and> status src
      then (src\<lparr>powerOutput := float_of_nat (20 + rs 0 mod 30)\<rparr>, \<lambda>n. rs (Suc n))
      else (src, rs))"

subsection \<open>Loads\<close>

record 'a Load =
  lname :: string
  demand :: 'a
  connected :: bool
  priority :: int

definition Load :: "string \<Rightarrow> 'a \<Rightarrow> int \<Rightarrow> 'a Load" where
  "Load n d p = \<lparr>lname = n, demand = d, connected = True, priority = p\<rparr>"

definition disconnect :: "'a Load \<Rightarrow> 'a Load" where
  "disconnect l = l\<lparr>connected := False\<rparr>"

definition reconnect :: "'a Load \<Rightarrow> 'a Load" where
  "reconnect l = l\<lparr>connected := True\<rparr>"

subsection \<open>The breaker map\<close>

text \<open>
  \<^verbatim>\<open>std::map<std::string, Breaker>\<close>. \<^verbatim>\<open>operator[]\<close> inserts a default-constructed breaker
  when the key is absent, also when the code only reads through it: \<open>at_key\<close> is the map
  after \<^verbatim>\<open>breakers[k]\<close>, \<open>isTripped_at\<close> is what \<^verbatim>\<open>breakers[k].isTripped()\<close> returns.
  \<^verbatim>\<open>emplace\<close> inserts only when the key is absent.
\<close>

type_synonym BreakerMap = "string \<rightharpoonup> Breaker"

definition at_key :: "BreakerMap \<Rightarrow> string \<Rightarrow> BreakerMap" where
  "at_key m k = (case m k of None \<Rightarrow> m(k \<mapsto> Breaker_default) | Some b \<Rightarrow> m)"

definition isTripped_at :: "BreakerMap \<Rightarrow> string \<Rightarrow> bool" where
  "isTripped_at m k = (case m k of None \<Rightarrow> isTripped Breaker_default | Some b \<Rightarrow> isTripped b)"

definition trip_at :: "BreakerMap \<Rightarrow> string \<Rightarrow> BreakerMap" where
  "trip_at m k = (case m k of None \<Rightarrow> m(k \<mapsto> trip Breaker_default) | Some b \<Rightarrow> m(k \<mapsto> trip b))"

definition reset_at :: "BreakerMap \<Rightarrow> string \<Rightarrow> BreakerMap" where
  "reset_at m k = (case m k of None \<Rightarrow> m(k \<mapsto> reset Breaker_default) | Some b \<Rightarrow> m(k \<mapsto> reset b))"

definition emplace :: "BreakerMap \<Rightarrow> string \<Rightarrow> Breaker \<Rightarrow> BreakerMap" where
  "emplace m k b = (case m k of None \<Rightarrow> m(k \<mapsto> b) | Some b' \<Rightarrow> m)"

subsection \<open>The grid manager\<close>

text \<open>
  The four members of \<^verbatim>\<open>GridManager\<close>, and with them the generator state that
  \<^verbatim>\<open>SolarSource::simulate\<close> reads. \<^verbatim>\<open>std::set<std::string>\<close> iterates in ascending order of
  its keys, and two operations take a position in that order, so the fault set is the
  ascending list of its elements.
\<close>

record 'a GridManager =
  sources :: "'a PowerComponent list"
  loads :: "'a Load list"
  breakers :: BreakerMap
  faults :: "string list"
  rand_seq :: "nat \<Rightarrow> nat"

definition GridManager_init :: "(nat \<Rightarrow> nat) \<Rightarrow> 'a GridManager" where
  "GridManager_init rs = \<lparr>sources = [], loads = [], breakers = Map.empty, faults = [], rand_seq = rs\<rparr>"

subsection \<open>std::sort\<close>

text \<open>
  \<^verbatim>\<open>std::sort\<close> is not a stable sort: the C++ standard asks of its result only that it is a
  permutation of the input that is ordered by the comparison, when the comparison is a
  strict weak ordering. Which permutation it is, among elements that compare equivalent,
  is up to the library. The library's sort is therefore a parameter \<open>srt\<close> of the cycle,
  and \<open>is_std_sort\<close> is what the standard guarantees of it: a theorem that assumes
  \<open>is_std_sort srt\<close> holds of the program whatever conforming library it is built with. A \<^verbatim>\<open>Load*\<close> into the \<^verbatim>\<open>loads\<close>
  vector is the index of the load.
\<close>

type_synonym sorter = "(nat \<Rightarrow> nat \<Rightarrow> bool) \<Rightarrow> nat list \<Rightarrow> nat list"

definition strict_weak_order :: "('b \<Rightarrow> 'b \<Rightarrow> bool) \<Rightarrow> bool" where
  "strict_weak_order cmp \<longleftrightarrow>
     (\<forall>a. \<not> cmp a a) \<and>
     (\<forall>a b c. cmp a b \<longrightarrow> cmp b c \<longrightarrow> cmp a c) \<and>
     (\<forall>a b c. \<not> cmp a b \<and> \<not> cmp b a \<longrightarrow> \<not> cmp b c \<and> \<not> cmp c b \<longrightarrow> \<not> cmp a c \<and> \<not> cmp c a)"

definition is_std_sort :: "sorter \<Rightarrow> bool" where
  "is_std_sort srt \<longleftrightarrow>
     (\<forall>cmp xs. strict_weak_order cmp \<longrightarrow>
        mset (srt cmp xs) = mset xs \<and> sorted_wrt (\<lambda>a b. \<not> cmp b a) (srt cmp xs))"

text \<open>
  A sort that meets the standard: insertion sort, which is stable.
\<close>

fun insert_sorted :: "(nat \<Rightarrow> nat \<Rightarrow> bool) \<Rightarrow> nat \<Rightarrow> nat list \<Rightarrow> nat list" where
  "insert_sorted cmp x [] = [x]"
| "insert_sorted cmp x (y # ys) = (if cmp y x then y # insert_sorted cmp x ys else x # y # ys)"

fun stable_sort :: sorter where
  "stable_sort cmp [] = []"
| "stable_sort cmp (x # xs) = insert_sorted cmp x (stable_sort cmp xs)"

subsection \<open>std::sort as libstdc++ implements it\<close>

text \<open>
  The program is built with \<^verbatim>\<open>g++\<close> (README), whose library, libstdc++, implements
  \<^verbatim>\<open>std::sort\<close> in \<^verbatim>\<open>bits/stl_algo.h\<close> and \<^verbatim>\<open>bits/stl_heap.h\<close> as an introsort: quicksort with a
  median-of-three pivot while a range has more than 16 elements, heapsort of a range when
  the recursion has used up its depth limit, and an insertion sort of the whole range at
  the end. The functions below follow that code, function by function and with its
  names (without the leading underscores). The vector is a list, an iterator is a
  position in it, and a function that writes through iterators returns the list.
\<close>

definition iter_swap :: "nat list \<Rightarrow> nat \<Rightarrow> nat \<Rightarrow> nat list" where
  "iter_swap xs i j = xs[i := xs ! j, j := xs ! i]"

fun lg :: "nat \<Rightarrow> nat" where
  "lg n = (if n < 2 then 0 else Suc (lg (n div 2)))"

text \<open>
  \<^verbatim>\<open>__unguarded_linear_insert\<close>, \<^verbatim>\<open>__insertion_sort\<close>, \<^verbatim>\<open>__unguarded_insertion_sort\<close> and
  \<^verbatim>\<open>__final_insertion_sort\<close>. The unguarded loop of the library has no test for the start
  of the vector, because an element that stops it is known to lie before; the test
  \<open>0 < last'\<close> only makes the function total. \<open>insertion_step\<close> is the body of the loop of
  \<^verbatim>\<open>__insertion_sort\<close>: its first branch is the \<^verbatim>\<open>move_backward\<close> of the range before \<open>i\<close>.
\<close>

fun unguarded_linear_insert :: "(nat \<Rightarrow> nat \<Rightarrow> bool) \<Rightarrow> nat \<Rightarrow> nat list \<Rightarrow> nat \<Rightarrow> nat list" where
  "unguarded_linear_insert cmp val xs last' =
     (if 0 < last' \<and> cmp val (xs ! (last' - 1))
      then unguarded_linear_insert cmp val (xs[last' := xs ! (last' - 1)]) (last' - 1)
      else xs[last' := val])"

declare lg.simps [simp del] unguarded_linear_insert.simps [simp del]

definition insertion_step :: "(nat \<Rightarrow> nat \<Rightarrow> bool) \<Rightarrow> nat \<Rightarrow> nat list \<Rightarrow> nat \<Rightarrow> nat list" where
  "insertion_step cmp first xs i =
     (if cmp (xs ! i) (xs ! first)
      then take first xs @ xs ! i # take (i - first) (drop first xs) @ drop (Suc i) xs
      else unguarded_linear_insert cmp (xs ! i) xs i)"

definition insertion_sort :: "(nat \<Rightarrow> nat \<Rightarrow> bool) \<Rightarrow> nat list \<Rightarrow> nat \<Rightarrow> nat \<Rightarrow> nat list" where
  "insertion_sort cmp xs first last' =
     (if first = last' then xs else foldl (insertion_step cmp first) xs [Suc first..<last'])"

definition unguarded_insertion_sort ::
  "(nat \<Rightarrow> nat \<Rightarrow> bool) \<Rightarrow> nat list \<Rightarrow> nat \<Rightarrow> nat \<Rightarrow> nat list" where
  "unguarded_insertion_sort cmp xs first last' =
     foldl (\<lambda>ys i. unguarded_linear_insert cmp (ys ! i) ys i) xs [first..<last']"

definition final_insertion_sort ::
  "(nat \<Rightarrow> nat \<Rightarrow> bool) \<Rightarrow> nat list \<Rightarrow> nat \<Rightarrow> nat \<Rightarrow> nat list" where
  "final_insertion_sort cmp xs first last' =
     (if last' - first > 16
      then unguarded_insertion_sort cmp (insertion_sort cmp xs first (first + 16)) (first + 16) last'
      else insertion_sort cmp xs first last')"

text \<open>
  \<^verbatim>\<open>__move_median_to_first\<close>, \<^verbatim>\<open>__unguarded_partition\<close> (with its two inner scans, bounded
  by the ends of the vector for totality only) and \<^verbatim>\<open>__unguarded_partition_pivot\<close>. The
  partition returns the vector and the cut.
\<close>

definition move_median_to_first ::
  "(nat \<Rightarrow> nat \<Rightarrow> bool) \<Rightarrow> nat list \<Rightarrow> nat \<Rightarrow> nat \<Rightarrow> nat \<Rightarrow> nat \<Rightarrow> nat list" where
  "move_median_to_first cmp xs result a b c =
     (if cmp (xs ! a) (xs ! b) then
        (if cmp (xs ! b) (xs ! c) then iter_swap xs result b
         else if cmp (xs ! a) (xs ! c) then iter_swap xs result c
         else iter_swap xs result a)
      else if cmp (xs ! a) (xs ! c) then iter_swap xs result a
      else if cmp (xs ! b) (xs ! c) then iter_swap xs result c
      else iter_swap xs result b)"

function scan_up :: "(nat \<Rightarrow> nat \<Rightarrow> bool) \<Rightarrow> nat list \<Rightarrow> nat \<Rightarrow> nat \<Rightarrow> nat" where
  "scan_up cmp xs pivot first =
     (if first < length xs \<and> cmp (xs ! first) (xs ! pivot)
      then scan_up cmp xs pivot (Suc first) else first)"
  by pat_completeness auto
termination
  by (relation "measure (\<lambda>(cmp, xs, pivot, first). length xs - first)") auto

fun scan_down :: "(nat \<Rightarrow> nat \<Rightarrow> bool) \<Rightarrow> nat list \<Rightarrow> nat \<Rightarrow> nat \<Rightarrow> nat" where
  "scan_down cmp xs pivot last' =
     (if 0 < last' \<and> cmp (xs ! pivot) (xs ! last')
      then scan_down cmp xs pivot (last' - 1) else last')"

declare scan_up.simps [simp del] scan_down.simps [simp del]

function unguarded_partition ::
  "(nat \<Rightarrow> nat \<Rightarrow> bool) \<Rightarrow> nat list \<Rightarrow> nat \<Rightarrow> nat \<Rightarrow> nat \<Rightarrow> nat list \<times> nat" where
  "unguarded_partition cmp xs first last' pivot =
     (let ii = scan_up cmp xs pivot first;
          jj = scan_down cmp xs pivot (last' - 1)
      in if \<not> ii < jj then (xs, ii)
         else unguarded_partition cmp (iter_swap xs ii jj) (Suc ii) jj pivot)"
  by pat_completeness auto
termination
proof (relation "measure (\<lambda>(cmp, xs, first, last', pivot). last' - first)")
  show "wf (measure (\<lambda>(cmp, xs, first, last', pivot). last' - first))" by simp
next
  fix cmp :: "nat \<Rightarrow> nat \<Rightarrow> bool" and xs first last' pivot ii jj
  assume f: "ii = scan_up cmp xs pivot first"
    and l: "jj = scan_down cmp xs pivot (last' - 1)"
    and lt: "\<not> \<not> ii < jj"
  have up: "i \<le> scan_up cmp xs pivot i" for i
  proof (induction cmp xs pivot i rule: scan_up.induct)
    case (1 cmp xs pivot i)
    show ?case
    proof (cases "i < length xs \<and> cmp (xs ! i) (xs ! pivot)")
      case True
      from "1" [OF True] have "i \<le> scan_up cmp xs pivot (Suc i)" by simp
      with True show ?thesis using scan_up.simps [of cmp xs pivot i] by auto
    next
      case False
      then show ?thesis using scan_up.simps [of cmp xs pivot i] by auto
    qed
  qed
  have down: "scan_down cmp xs pivot j \<le> j" for j
  proof (induction cmp xs pivot j rule: scan_down.induct)
    case (1 cmp xs pivot j)
    show ?case
    proof (cases "0 < j \<and> cmp (xs ! pivot) (xs ! j)")
      case True
      from "1" [OF True] have "scan_down cmp xs pivot (j - 1) \<le> j" by simp
      with True show ?thesis using scan_down.simps [of cmp xs pivot j] by auto
    next
      case False
      then show ?thesis using scan_down.simps [of cmp xs pivot j] by auto
    qed
  qed
  have "first \<le> ii" unfolding f by (rule up)
  moreover have "jj \<le> last' - 1" unfolding l by (rule down)
  ultimately show "((cmp, iter_swap xs ii jj, Suc ii, jj, pivot), cmp, xs, first, last', pivot)
        \<in> measure (\<lambda>(cmp, xs, first, last', pivot). last' - first)"
    using lt by simp
qed

declare unguarded_partition.simps [simp del]

definition unguarded_partition_pivot ::
  "(nat \<Rightarrow> nat \<Rightarrow> bool) \<Rightarrow> nat list \<Rightarrow> nat \<Rightarrow> nat \<Rightarrow> nat list \<times> nat" where
  "unguarded_partition_pivot cmp xs first last' =
     (let mid = first + (last' - first) div 2
      in unguarded_partition cmp (move_median_to_first cmp xs first (first + 1) mid (last' - 1))
           (first + 1) last' first)"

text \<open>
  The heapsort of \<^verbatim>\<open>bits/stl_heap.h\<close>: \<^verbatim>\<open>__push_heap\<close>, \<^verbatim>\<open>__adjust_heap\<close> (its loop, then the case
  of a last parent with one child), \<^verbatim>\<open>__make_heap\<close>, \<^verbatim>\<open>__pop_heap\<close>, \<^verbatim>\<open>__heap_select\<close>,
  \<^verbatim>\<open>__sort_heap\<close> and \<^verbatim>\<open>__partial_sort\<close>. Distances are signed in the library; they are never
  negative where these functions are called, and \<open>2 \<le> len\<close> keeps the one comparison
  with \<^verbatim>\<open>(len - 2) / 2\<close> as it is there.
\<close>

function push_heap ::
  "(nat \<Rightarrow> nat \<Rightarrow> bool) \<Rightarrow> nat list \<Rightarrow> nat \<Rightarrow> nat \<Rightarrow> nat \<Rightarrow> nat \<Rightarrow> nat list" where
  "push_heap cmp xs first holeIndex topIndex val =
     (if holeIndex > topIndex \<and> cmp (xs ! (first + (holeIndex - 1) div 2)) val
      then push_heap cmp (xs[first + holeIndex := xs ! (first + (holeIndex - 1) div 2)])
             first ((holeIndex - 1) div 2) topIndex val
      else xs[first + holeIndex := val])"
  by pat_completeness auto
termination
  by (relation "measure (\<lambda>(cmp, xs, first, holeIndex, topIndex, val). holeIndex)") auto

function adjust_heap_loop ::
  "(nat \<Rightarrow> nat \<Rightarrow> bool) \<Rightarrow> nat list \<Rightarrow> nat \<Rightarrow> nat \<Rightarrow> nat \<Rightarrow> nat \<Rightarrow> nat list \<times> nat \<times> nat" where
  "adjust_heap_loop cmp xs first len holeIndex secondChild =
     (if secondChild < (len - 1) div 2 then
        (let sc = 2 * (secondChild + 1);
             sc' = (if cmp (xs ! (first + sc)) (xs ! (first + (sc - 1))) then sc - 1 else sc)
         in adjust_heap_loop cmp (xs[first + holeIndex := xs ! (first + sc')]) first len sc' sc')
      else (xs, holeIndex, secondChild))"
  by pat_completeness auto
termination
  by (relation "measure (\<lambda>(cmp, xs, first, len, holeIndex, secondChild). len - secondChild)") auto

declare push_heap.simps [simp del] adjust_heap_loop.simps [simp del]

definition adjust_heap ::
  "(nat \<Rightarrow> nat \<Rightarrow> bool) \<Rightarrow> nat list \<Rightarrow> nat \<Rightarrow> nat \<Rightarrow> nat \<Rightarrow> nat \<Rightarrow> nat list" where
  "adjust_heap cmp xs first holeIndex len val =
     (case adjust_heap_loop cmp xs first len holeIndex holeIndex of
        (xs1, hole1, sc1) \<Rightarrow>
          if even len \<and> 2 \<le> len \<and> sc1 = (len - 2) div 2
          then push_heap cmp (xs1[first + hole1 := xs1 ! (first + (2 * (sc1 + 1) - 1))])
                 first (2 * (sc1 + 1) - 1) holeIndex val
          else push_heap cmp xs1 first hole1 holeIndex val)"

definition make_heap :: "(nat \<Rightarrow> nat \<Rightarrow> bool) \<Rightarrow> nat list \<Rightarrow> nat \<Rightarrow> nat \<Rightarrow> nat list" where
  "make_heap cmp xs first last' =
     (if last' - first < 2 then xs
      else foldl (\<lambda>ys parent. adjust_heap cmp ys first parent (last' - first) (ys ! (first + parent)))
             xs (rev [0..<Suc ((last' - first - 2) div 2)]))"

definition pop_heap ::
  "(nat \<Rightarrow> nat \<Rightarrow> bool) \<Rightarrow> nat list \<Rightarrow> nat \<Rightarrow> nat \<Rightarrow> nat \<Rightarrow> nat list" where
  "pop_heap cmp xs first last' result =
     adjust_heap cmp (xs[result := xs ! first]) first 0 (last' - first) (xs ! result)"

definition heap_select ::
  "(nat \<Rightarrow> nat \<Rightarrow> bool) \<Rightarrow> nat list \<Rightarrow> nat \<Rightarrow> nat \<Rightarrow> nat \<Rightarrow> nat list" where
  "heap_select cmp xs first middle last' =
     foldl (\<lambda>ys i. if cmp (ys ! i) (ys ! first) then pop_heap cmp ys first middle i else ys)
       (make_heap cmp xs first middle) [middle..<last']"

definition sort_heap :: "(nat \<Rightarrow> nat \<Rightarrow> bool) \<Rightarrow> nat list \<Rightarrow> nat \<Rightarrow> nat \<Rightarrow> nat list" where
  "sort_heap cmp xs first last' =
     foldl (\<lambda>ys l. pop_heap cmp ys first l l) xs (rev [Suc first..<last'])"

definition partial_sort ::
  "(nat \<Rightarrow> nat \<Rightarrow> bool) \<Rightarrow> nat list \<Rightarrow> nat \<Rightarrow> nat \<Rightarrow> nat \<Rightarrow> nat list" where
  "partial_sort cmp xs first middle last' =
     sort_heap cmp (heap_select cmp xs first middle last') first middle"

text \<open>
  \<^verbatim>\<open>__introsort_loop\<close> (the recursive call sorts the part from the cut on, the loop goes on
  with the part before it) and \<^verbatim>\<open>__sort\<close>, which \<^verbatim>\<open>std::sort\<close> calls.
\<close>

function introsort_loop ::
  "(nat \<Rightarrow> nat \<Rightarrow> bool) \<Rightarrow> nat list \<Rightarrow> nat \<Rightarrow> nat \<Rightarrow> nat \<Rightarrow> nat list" where
  "introsort_loop cmp xs first last' depth_limit =
     (if last' - first > 16 then
        (if depth_limit = 0 then partial_sort cmp xs first last' last'
         else (case unguarded_partition_pivot cmp xs first last' of
                 (xs1, cut') \<Rightarrow>
                   introsort_loop cmp (introsort_loop cmp xs1 cut' last' (depth_limit - 1))
                     first cut' (depth_limit - 1)))
      else xs)"
  by pat_completeness auto
termination
  by (relation "measure (\<lambda>(cmp, xs, first, last', depth_limit). depth_limit)") auto

declare introsort_loop.simps [simp del]

definition libstdcxx_sort :: sorter where
  "libstdcxx_sort cmp xs =
     (if xs = [] then xs
      else final_insertion_sort cmp
             (introsort_loop cmp xs 0 (length xs) (lg (length xs) * 2)) 0 (length xs))"

section \<open>The simulation cycle\<close>

text \<open>
  Lines 128 to 134: the loop over the sources. It threads the breaker map (read through
  \<^verbatim>\<open>operator[]\<close>), the generator state and \<^verbatim>\<open>totalPower\<close>, and returns the sources as the
  calls of \<^verbatim>\<open>simulate()\<close> leave them.
\<close>

fun sources_loop ::
  "'a::{zero,one,plus} PowerComponent list \<Rightarrow> BreakerMap \<Rightarrow> (nat \<Rightarrow> nat) \<Rightarrow> 'a \<Rightarrow>
     'a PowerComponent list \<times> BreakerMap \<times> (nat \<Rightarrow> nat) \<times> 'a" where
  "sources_loop [] bs rs totalPower = ([], bs, rs, totalPower)"
| "sources_loop (src # rest) bs rs totalPower =
     (let bs1 = at_key bs (name src) in
      if \<not> isTripped_at bs1 (name src) then
        (case simulate_source src rs of (src', rs') \<Rightarrow>
          (case sources_loop rest bs1 rs'
                  (if status src' then totalPower + powerOutput src' else totalPower) of
             (rest', bs2, rs2, tp) \<Rightarrow> (src' # rest', bs2, rs2, tp)))
      else
        (case sources_loop rest bs1 rs totalPower of
           (rest', bs2, rs2, tp) \<Rightarrow> (src # rest', bs2, rs2, tp)))"

text \<open>Lines 136 to 141: the loop over the loads that sums \<^verbatim>\<open>totalDemand\<close>.\<close>

fun demand_loop :: "'a::plus Load list \<Rightarrow> BreakerMap \<Rightarrow> 'a \<Rightarrow> BreakerMap \<times> 'a" where
  "demand_loop [] bs totalDemand = (bs, totalDemand)"
| "demand_loop (l # ls) bs totalDemand =
     (let bs1 = at_key bs (lname l) in
      if \<not> isTripped_at bs1 (lname l)
      then demand_loop ls bs1 (if connected l then totalDemand + demand l else totalDemand)
      else demand_loop ls bs1 totalDemand)"

text \<open>Lines 149 to 151: the pointers to the connected loads, in the order of the vector.\<close>

definition connected_loads :: "'a Load list \<Rightarrow> nat list" where
  "connected_loads ls = filter (\<lambda>i. connected (ls ! i)) [0..<length ls]"

text \<open>
  Lines 156 to 162: the shedding loop over the sorted pointers. The body runs before the
  test, so the first load of a non-empty list is always shed. The last component collects
  the names of the \<^verbatim>\<open>[Trip]\<close> lines in the order they are printed.
\<close>

fun shed_loop ::
  "'a::{minus,ord} \<Rightarrow> nat list \<Rightarrow> 'a Load list \<Rightarrow> BreakerMap \<Rightarrow> 'a \<Rightarrow> string list \<Rightarrow>
     'a Load list \<times> BreakerMap \<times> 'a \<times> string list" where
  "shed_loop totalPower [] ls bs totalDemand out = (ls, bs, totalDemand, out)"
| "shed_loop totalPower (i # rest) ls bs totalDemand out =
     (let ls' = ls[i := disconnect (ls ! i)];
          bs' = trip_at bs (lname (ls ! i));
          out' = out @ [lname (ls ! i)];
          totalDemand' = totalDemand - demand (ls ! i)
      in if totalPower \<ge> totalDemand' then (ls', bs', totalDemand', out')
         else shed_loop totalPower rest ls' bs' totalDemand' out')"

text \<open>
  Lines 165 to 169: the pointers to the loads that are disconnected and whose breaker is
  not tripped. \<^verbatim>\<open>&&\<close> evaluates \<^verbatim>\<open>breakers[...]\<close> only for a disconnected load.
\<close>

fun collect_loop :: "'a Load list \<Rightarrow> nat list \<Rightarrow> BreakerMap \<Rightarrow> nat list \<Rightarrow> nat list \<times> BreakerMap" where
  "collect_loop ls [] bs acc = (acc, bs)"
| "collect_loop ls (i # rest) bs acc =
     (if \<not> connected (ls ! i) then
        (let bs1 = at_key bs (lname (ls ! i)) in
         collect_loop ls rest bs1 (if \<not> isTripped_at bs1 (lname (ls ! i)) then acc @ [i] else acc))
      else collect_loop ls rest bs acc)"

text \<open>
  Lines 174 to 180: the reconnection loop. The last component collects the names of the
  \<^verbatim>\<open>[Reconnect]\<close> lines.
\<close>

fun restore_loop ::
  "'a::{plus,ord} \<Rightarrow> nat list \<Rightarrow> 'a Load list \<Rightarrow> 'a \<Rightarrow> string list \<Rightarrow>
     'a Load list \<times> 'a \<times> string list" where
  "restore_loop totalPower [] ls totalDemand out = (ls, totalDemand, out)"
| "restore_loop totalPower (i # rest) ls totalDemand out =
     (if totalPower \<ge> totalDemand + demand (ls ! i)
      then restore_loop totalPower rest (ls[i := reconnect (ls ! i)])
             (totalDemand + demand (ls ! i)) (out @ [lname (ls ! i)])
      else restore_loop totalPower rest ls totalDemand out)"

text \<open>
  What a cycle prints and computes besides the new state: the two totals of lines 143 and
  144 (logged before any load is shed or reconnected), the value of the local variable
  \<^verbatim>\<open>totalDemand\<close> when the cycle ends, and the names of the loads tripped and reconnected,
  in order.
\<close>

record 'a CycleLog =
  log_totalPower :: 'a
  log_totalDemand :: 'a
  end_totalDemand :: 'a
  log_trip :: "string list"
  log_reconnect :: "string list"

text \<open>\<^verbatim>\<open>GridManager::simulate\<close>, lines 124 to 187, with its log.\<close>

definition simulate_log ::
  "sorter \<Rightarrow> 'a::{zero,one,plus,minus,ord} GridManager \<Rightarrow> 'a GridManager \<times> 'a CycleLog" where
  "simulate_log srt g =
     (case sources_loop (sources g) (breakers g) (rand_seq g) 0 of
        (srcs, bs1, rs, totalPower) \<Rightarrow>
     (case demand_loop (loads g) bs1 0 of
        (bs2, totalDemand) \<Rightarrow>
      if totalPower < totalDemand then
        (let sortedLoads =
               srt (\<lambda>a b. priority (loads g ! a) > priority (loads g ! b)) (connected_loads (loads g))
         in case shed_loop totalPower sortedLoads (loads g) bs2 totalDemand [] of
              (ls, bs3, td, out) \<Rightarrow>
                (g\<lparr>sources := srcs, loads := ls, breakers := bs3, rand_seq := rs\<rparr>,
                 \<lparr>log_totalPower = totalPower, log_totalDemand = totalDemand,
                  end_totalDemand = td, log_trip = out, log_reconnect = []\<rparr>))
      else
        (case collect_loop (loads g) [0..<length (loads g)] bs2 [] of
           (ptrs, bs3) \<Rightarrow>
        (let disconnectedLoads =
               srt (\<lambda>a b. priority (loads g ! a) < priority (loads g ! b)) ptrs
         in case restore_loop totalPower disconnectedLoads (loads g) totalDemand [] of
              (ls, td, out) \<Rightarrow>
                (g\<lparr>sources := srcs, loads := ls, breakers := bs3, rand_seq := rs\<rparr>,
                 \<lparr>log_totalPower = totalPower, log_totalDemand = totalDemand,
                  end_totalDemand = td, log_trip = [], log_reconnect = out\<rparr>)))))"

definition simulate :: "sorter \<Rightarrow> 'a::{zero,one,plus,minus,ord} GridManager \<Rightarrow> 'a GridManager" where
  "simulate srt g = fst (simulate_log srt g)"

section \<open>Registration\<close>

text \<open>
  \<^verbatim>\<open>addSource\<close> (lines 112 to 116) and \<^verbatim>\<open>addLoad\<close> (lines 118 to 121). \<open>register_source\<close> is
  the state of \<^verbatim>\<open>addSource\<close> after its first two statements, before it calls \<^verbatim>\<open>simulate()\<close>.
\<close>

definition register_source :: "'a GridManager \<Rightarrow> 'a PowerComponent \<Rightarrow> 'a GridManager" where
  "register_source g src =
     g\<lparr>sources := sources g @ [src],
       breakers := emplace (breakers g) (name src) (Breaker_of (name src))\<rparr>"

definition addSource ::
  "sorter \<Rightarrow> 'a::{zero,one,plus,minus,ord} GridManager \<Rightarrow> 'a PowerComponent \<Rightarrow> 'a GridManager" where
  "addSource srt g src = simulate srt (register_source g src)"

definition addLoad :: "'a GridManager \<Rightarrow> 'a Load \<Rightarrow> 'a GridManager" where
  "addLoad g l =
     g\<lparr>loads := loads g @ [l],
       breakers := emplace (breakers g) (lname l) (Breaker_of (lname l))\<rparr>"

section \<open>Operator commands\<close>

text \<open>
  The commands that take an index do not check it. Where C++ leaves the behaviour
  undefined (\<^verbatim>\<open>operator[]\<close> of a vector past its size, advancing or dereferencing a set
  iterator past the end, reading through an erased iterator) the model returns
  \<open>Undefined\<close>: nothing is reported to the caller and nothing is known of the state. \<open>Throws\<close> is an exception that leaves the
  member function.
\<close>

datatype exn = invalid_argument | out_of_range

datatype 'r outcome = Returns 'r | Throws exn | Undefined

text \<open>\<^verbatim>\<open>disconnectLoad\<close> and \<^verbatim>\<open>reconnectLoad\<close>, lines 223 and 224.\<close>

definition disconnectLoad :: "'a GridManager \<Rightarrow> nat \<Rightarrow> 'a GridManager outcome" where
  "disconnectLoad g index =
     (if index < length (loads g)
      then Returns (g\<lparr>loads := (loads g)[index := disconnect (loads g ! index)]\<rparr>)
      else Undefined)"

definition reconnectLoad :: "'a GridManager \<Rightarrow> nat \<Rightarrow> 'a GridManager outcome" where
  "reconnectLoad g index =
     (if index < length (loads g)
      then Returns (g\<lparr>loads := (loads g)[index := reconnect (loads g ! index)]\<rparr>)
      else Undefined)"

text \<open>
  \<^verbatim>\<open>std::stoi\<close> in base 10: optional white space, an optional sign, then the longest run of
  digits; \<^verbatim>\<open>std::invalid_argument\<close> when there is no digit, \<^verbatim>\<open>std::out_of_range\<close> when the
  value does not fit a 32-bit \<^verbatim>\<open>int\<close>. What follows the digits is ignored.
\<close>

definition is_space :: "char \<Rightarrow> bool" where
  "is_space c \<longleftrightarrow> c \<in> set [CHR '' '', CHR 0x09, CHR 0x0A, CHR 0x0B, CHR 0x0C, CHR 0x0D]"

definition is_digit :: "char \<Rightarrow> bool" where
  "is_digit c \<longleftrightarrow> c \<in> set ''0123456789''"

definition digit_val :: "char \<Rightarrow> nat" where
  "digit_val c = of_char c - of_char (CHR ''0'')"

definition digits_val :: "string \<Rightarrow> nat" where
  "digits_val ds = foldl (\<lambda>acc c. 10 * acc + digit_val c) 0 ds"

definition stoi :: "string \<Rightarrow> exn + int" where
  "stoi str =
     (let s1 = dropWhile is_space str;
          neg = (s1 \<noteq> [] \<and> hd s1 = CHR ''-'');
          s2 = (if s1 \<noteq> [] \<and> (hd s1 = CHR ''-'' \<or> hd s1 = CHR ''+'') then tl s1 else s1);
          ds = takeWhile is_digit s2;
          v = (if neg then - int (digits_val ds) else int (digits_val ds))
      in if ds = [] then Inl invalid_argument
         else if v < - 2147483648 \<or> 2147483647 < v then Inl out_of_range
         else Inr v)"

text \<open>
  \<^verbatim>\<open>injectManualFault\<close>, lines 192 to 206, as a function of the token read from the input.
  \<^verbatim>\<open>input[0]\<close> of an empty string is the null character, so an empty token, like any token
  that starts with neither \<^verbatim>\<open>L\<close> nor \<^verbatim>\<open>S\<close>, leaves \<^verbatim>\<open>name\<close> empty. The \<^verbatim>\<open>int\<close> that
  \<^verbatim>\<open>std::stoi\<close> returns is converted to \<^verbatim>\<open>size_t\<close>, so a negative value is out of range too.
\<close>

definition raise_fault :: "'a GridManager \<Rightarrow> string \<Rightarrow> 'a GridManager" where
  "raise_fault g n = g\<lparr>faults := insort_insert n (faults g), breakers := trip_at (breakers g) n\<rparr>"

definition injectManualFault :: "'a GridManager \<Rightarrow> string \<Rightarrow> 'a GridManager outcome" where
  "injectManualFault g input =
     (case input of
        [] \<Rightarrow> Returns (raise_fault g [])
      | c # rest \<Rightarrow>
          if c = CHR ''L'' then
            (case stoi rest of
               Inl e \<Rightarrow> Throws e
             | Inr i \<Rightarrow>
                 if 0 \<le> i \<and> nat i < length (loads g)
                 then Returns (raise_fault g (lname (loads g ! nat i)))
                 else Undefined)
          else if c = CHR ''S'' then
            (case stoi rest of
               Inl e \<Rightarrow> Throws e
             | Inr i \<Rightarrow>
                 if 0 \<le> i \<and> nat i < length (sources g)
                 then Returns (raise_fault g (name (sources g ! nat i)))
                 else Undefined)
          else Returns (raise_fault g []))"

text \<open>
  \<^verbatim>\<open>resolveManualFault\<close>, lines 208 to 221, as a function of the index read from the input.
  For an index within the fault set, line 217 resets the breaker of the fault at that
  position of the set's iteration order and line 218 erases the fault: \<open>clear_fault\<close>.
  Line 219 then prints \<^verbatim>\<open>*it\<close>, through the iterator that line 218 has just erased. That
  read is undefined behaviour, on every call that gets this far, and it comes before the
  cycle of line 220: \<open>read_erased\<close> is that line, in the state it is reached in. For an
  index outside the fault set, advancing the iterator past the end, or dereferencing it at
  line 217, is undefined already.
\<close>

definition clear_fault :: "'a GridManager \<Rightarrow> nat \<Rightarrow> 'a GridManager" where
  "clear_fault g i =
     g\<lparr>breakers := reset_at (breakers g) (faults g ! i),
       faults := take i (faults g) @ drop (Suc i) (faults g)\<rparr>"

definition read_erased :: "'a GridManager \<Rightarrow> 'a GridManager outcome" where
  "read_erased c = Undefined"

definition resolveManualFault ::
  "sorter \<Rightarrow> 'a::{zero,one,plus,minus,ord} GridManager \<Rightarrow> int \<Rightarrow> 'a GridManager outcome" where
  "resolveManualFault srt g index =
     (if 0 \<le> index \<and> nat index < length (faults g)
      then read_erased (clear_fault g (nat index))
      else Undefined)"

text \<open>
  What the statements of \<^verbatim>\<open>resolveManualFault\<close> other than the print of line 219 do, for an
  index within the fault set: lines 217 and 218, then the cycle of line 220. This is the
  state a call leaves in a run in which the read of line 219 does no harm.
\<close>

definition resolved :: "sorter \<Rightarrow> 'a::{zero,one,plus,minus,ord} GridManager \<Rightarrow> nat \<Rightarrow> 'a GridManager" where
  "resolved srt g i = simulate srt (clear_fault g i)"

section \<open>Reachable states\<close>

text \<open>
  The states a program can bring a \<^verbatim>\<open>GridManager\<close> into: it starts empty, and each public
  member function that returns takes it to the next state. A component passed to
  \<^verbatim>\<open>addSource\<close> or \<^verbatim>\<open>addLoad\<close> is any value of its class. A call of \<^verbatim>\<open>resolveManualFault\<close>
  never returns with defined behaviour; the state \<open>resolved\<close> that it leaves when the read
  of line 219 does no harm is counted as reachable, so that what holds of every reachable
  state holds after such a call too.
\<close>

inductive reachable :: "sorter \<Rightarrow> 'a::{zero,one,plus,minus,ord} GridManager \<Rightarrow> bool"
  for srt :: sorter where
  r_init: "reachable srt (GridManager_init rs)"
| r_addSource: "reachable srt g \<Longrightarrow> reachable srt (addSource srt g src)"
| r_addLoad: "reachable srt g \<Longrightarrow> reachable srt (addLoad g l)"
| r_simulate: "reachable srt g \<Longrightarrow> reachable srt (simulate srt g)"
| r_inject: "reachable srt g \<Longrightarrow> injectManualFault g input = Returns g' \<Longrightarrow> reachable srt g'"
| r_resolve: "reachable srt g \<Longrightarrow> i < length (faults g) \<Longrightarrow> reachable srt (resolved srt g i)"
| r_disconnect: "reachable srt g \<Longrightarrow> disconnectLoad g i = Returns g' \<Longrightarrow> reachable srt g'"
| r_reconnect: "reachable srt g \<Longrightarrow> reconnectLoad g i = Returns g' \<Longrightarrow> reachable srt g'"

section \<open>What a cycle computes, by name\<close>

text \<open>
  The values the body of \<^verbatim>\<open>simulate\<close> holds in its local variables, as functions of the
  state the cycle starts from: the sources, the generator state and \<^verbatim>\<open>totalPower\<close> after the
  first loop, the breaker map and \<^verbatim>\<open>totalDemand\<close> after the second, and the two sorted vectors
  of pointers.
\<close>

definition cycle_sources :: "'a::{zero,one,plus} GridManager \<Rightarrow> 'a PowerComponent list" where
  "cycle_sources g = fst (sources_loop (sources g) (breakers g) (rand_seq g) 0)"

definition cycle_rand :: "'a::{zero,one,plus} GridManager \<Rightarrow> nat \<Rightarrow> nat" where
  "cycle_rand g = fst (snd (snd (sources_loop (sources g) (breakers g) (rand_seq g) 0)))"

definition totalPower_of :: "'a::{zero,one,plus} GridManager \<Rightarrow> 'a" where
  "totalPower_of g = snd (snd (snd (sources_loop (sources g) (breakers g) (rand_seq g) 0)))"

definition cycle_breakers :: "'a::{zero,one,plus} GridManager \<Rightarrow> BreakerMap" where
  "cycle_breakers g =
     fst (demand_loop (loads g) (fst (snd (sources_loop (sources g) (breakers g) (rand_seq g) 0))) 0)"

definition totalDemand_of :: "'a::{zero,one,plus} GridManager \<Rightarrow> 'a" where
  "totalDemand_of g =
     snd (demand_loop (loads g) (fst (snd (sources_loop (sources g) (breakers g) (rand_seq g) 0))) 0)"

definition shed_candidates :: "sorter \<Rightarrow> 'a GridManager \<Rightarrow> nat list" where
  "shed_candidates srt g =
     srt (\<lambda>a b. priority (loads g ! a) > priority (loads g ! b)) (connected_loads (loads g))"

definition restore_candidates :: "sorter \<Rightarrow> 'a::{zero,one,plus} GridManager \<Rightarrow> nat list" where
  "restore_candidates srt g =
     srt (\<lambda>a b. priority (loads g ! a) < priority (loads g ! b))
       (fst (collect_loop (loads g) [0..<length (loads g)] (cycle_breakers g) []))"

section \<open>The properties the specification names\<close>

text \<open>
  The sum of the demand of the loads that are connected and whose breaker is not tripped,
  taken in the order of registration.
\<close>

definition connected_demand :: "'a::{zero,plus} GridManager \<Rightarrow> 'a" where
  "connected_demand g =
     foldl (+) 0 (map demand
       (filter (\<lambda>l. \<not> isTripped_at (breakers g) (lname l) \<and> connected l) (loads g)))"

text \<open>No load is both connected and breaker-tripped.\<close>

definition no_contradiction :: "'a GridManager \<Rightarrow> bool" where
  "no_contradiction g \<longleftrightarrow>
     (\<forall>l \<in> set (loads g). connected l \<longrightarrow> \<not> isTripped_at (breakers g) (lname l))"

text \<open>Every name in the fault set has a tripped breaker.\<close>

definition faults_tripped :: "'a GridManager \<Rightarrow> bool" where
  "faults_tripped g \<longleftrightarrow> (\<forall>n \<in> set (faults g). isTripped_at (breakers g) n)"

text \<open>
  The walk of the surplus branch in the words of the specification: \<open>demand_at P D ds j\<close>
  is \<^verbatim>\<open>totalDemand\<close> at the point where candidate \<open>j\<close> is considered, when the walk starts
  from \<open>D\<close>, the supply is \<open>P\<close> and the candidates demand \<open>ds\<close>: a candidate's demand is
  added when, and only when, the supply covers the total with it.
\<close>

fun demand_at :: "'a::{plus,ord} \<Rightarrow> 'a \<Rightarrow> 'a list \<Rightarrow> nat \<Rightarrow> 'a" where
  "demand_at P D ds 0 = D"
| "demand_at P D [] (Suc j) = D"
| "demand_at P D (d # ds) (Suc j) = demand_at P (if P \<ge> D + d then D + d else D) ds j"

text \<open>
  The walk of the deficit branch in the words of the specification: \<open>demand_after D ds j\<close>
  is \<^verbatim>\<open>totalDemand\<close> once the first \<open>j\<close> candidates are shed.
\<close>

definition demand_after :: "'a::minus \<Rightarrow> 'a list \<Rightarrow> nat \<Rightarrow> 'a" where
  "demand_after D ds j = foldl (-) D (take j ds)"

text \<open>An operation reports an error to its caller when an exception leaves it.\<close>

fun reports_error :: "'r outcome \<Rightarrow> bool" where
  "reports_error (Throws e) = True"
| "reports_error (Returns r) = False"
| "reports_error Undefined = False"

section \<open>Auxiliary functions of the proofs\<close>

text \<open>How many candidates the shedding loop sheds, and which candidates the
  reconnection loop admits.\<close>

fun shed_count :: "'a::{minus,ord} \<Rightarrow> 'a \<Rightarrow> 'a list \<Rightarrow> nat" where
  "shed_count P D [] = 0"
| "shed_count P D (d # ds) = (if P \<ge> D - d then 1 else Suc (shed_count P (D - d) ds))"

fun admit :: "'a::{plus,ord} \<Rightarrow> 'a \<Rightarrow> 'a list \<Rightarrow> bool list" where
  "admit P D [] = []"
| "admit P D (d # ds) = (if P \<ge> D + d then True # admit P (D + d) ds else False # admit P D ds)"

definition admitted :: "'a::{plus,ord} \<Rightarrow> 'a \<Rightarrow> 'a list \<Rightarrow> nat list \<Rightarrow> nat list" where
  "admitted P D ds cand = map fst (filter snd (zip cand (admit P D ds)))"

section \<open>Concrete grids\<close>

text \<open>
  Grids built from the empty manager, with kW values that are small whole numbers (on
  which \<^verbatim>\<open>float\<close> arithmetic is exact), so the demand type is \<open>int\<close>.
\<close>

text \<open>The state an operation returns (\<open>d\<close> if it does not return).\<close>

fun returned :: "'r \<Rightarrow> 'r outcome \<Rightarrow> 'r" where
  "returned d (Returns r) = r"
| "returned d (Throws e) = d"
| "returned d Undefined = d"

text \<open>
  The grid \<^verbatim>\<open>main\<close> builds before it shows its menu, when \<^verbatim>\<open>std::rand()\<close> returns 0, 11, 22
  and so on: each \<^verbatim>\<open>addSource\<close> runs a cycle, and each cycle draws a new output for the solar
  farm.
\<close>

definition main_grid :: "int GridManager" where
  "main_grid =
     addLoad (addLoad (addLoad
       (addSource stable_sort
          (addSource stable_sort (GridManager_init (\<lambda>n. 11 * n)) (SolarSource ''SolarFarm-A''))
          (PowerSource ''HydroStation'' 60 False))
       (Load ''Factory-A'' 30 2)) (Load ''House-B'' 15 1)) (Load ''Shop-C'' 10 3)"

text \<open>A grid with one fixed source of \<open>p\<close> kW and no load.\<close>

definition hydro_grid :: "int \<Rightarrow> int GridManager" where
  "hydro_grid p =
     addSource stable_sort (GridManager_init (\<lambda>n. 0)) (PowerSource ''HydroStation'' p False)"

text \<open>Four loads on a 40 kW source: a deficit that three sheddings cover.\<close>

definition deficit_grid :: "int GridManager" where
  "deficit_grid =
     addLoad (addLoad (addLoad (addLoad (hydro_grid 40)
       (Load ''Factory-A'' 30 2)) (Load ''House-B'' 15 1)) (Load ''Shop-C'' 10 3)) (Load ''Mill-D'' 40 4)"

text \<open>
  Seventeen loads \<open>La\<close>, \<open>Lb\<close>, ..., \<open>Lq\<close> of 10 kW each and of equal priority, registered in
  that order on a 165 kW source: shedding any one of them covers the deficit.
\<close>

definition tie_grid :: "int GridManager" where
  "tie_grid =
     foldl addLoad (hydro_grid 165) (map (\<lambda>c. Load [CHR ''L'', c] 10 5) ''abcdefghijklmnopq'')"

text \<open>
  Four loads on a 60 kW source, three of them disconnected by the operator: the second
  candidate does not fit, the third does.
\<close>

definition surplus_grid :: "int GridManager" where
  "surplus_grid =
     (let g0 = addLoad (addLoad (addLoad (addLoad (hydro_grid 60)
                 (Load ''House-B'' 15 1)) (Load ''Factory-A'' 30 2)) (Load ''Mill-D'' 40 3)) (Load ''Shop-C'' 10 4);
          g1 = returned g0 (disconnectLoad g0 1);
          g2 = returned g1 (disconnectLoad g1 2)
      in returned g2 (disconnectLoad g2 3))"

text \<open>One connected load whose breaker a manual fault has tripped.\<close>

definition faulted_grid :: "int GridManager" where
  "faulted_grid = raise_fault (addLoad (hydro_grid 60) (Load ''A'' 10 5)) ''A''"

text \<open>
  Three loads on a 10 kW source, the first under a manual fault and still connected.
\<close>

definition faulted_deficit_grid :: "int GridManager" where
  "faulted_deficit_grid =
     raise_fault (addLoad (addLoad (addLoad (hydro_grid 10)
       (Load ''A'' 20 5)) (Load ''B'' 15 1)) (Load ''C'' 7 9)) ''A''"

text \<open>One load and no source: the first cycle sheds the load.\<close>

definition shed_grid :: "int GridManager" where
  "shed_grid = simulate stable_sort (addLoad (GridManager_init (\<lambda>n. 0)) (Load ''A'' 10 5))"

text \<open>
  One load of 10 kW, disconnected by the operator and then put under a manual fault, on a
  source of \<open>p\<close> kW.
\<close>

definition resolve_grid :: "int \<Rightarrow> int GridManager" where
  "resolve_grid p =
     (let g = addLoad (hydro_grid p) (Load ''A'' 10 5)
      in returned g (injectManualFault (returned g (disconnectLoad g 0)) ''L0''))"

text \<open>
  A load \<open>A\<close> of 10 kW is registered on a manager without sources; then a source of 5 kW
  is to be registered under the same name \<open>A\<close>.
\<close>

definition name_collision_grid :: "int GridManager" where
  "name_collision_grid = addLoad (GridManager_init (\<lambda>n. 0)) (Load ''A'' 10 5)"

text \<open>
  On a 15 kW source a load \<open>B\<close> of 20 kW is registered and shed by a cycle, which trips the
  breaker \<open>B\<close>. Then a second load is registered under the tripped name \<open>B\<close> (7 kW), and a
  load \<open>C\<close> of 20 kW.
\<close>

definition tripped_name_grid :: "int GridManager" where
  "tripped_name_grid =
     addLoad (addLoad (simulate stable_sort (addLoad (hydro_grid 15) (Load ''B'' 20 0)))
       (Load ''B'' 7 1)) (Load ''C'' 20 0)"

text \<open>
  The entry of a name in the breaker map is the breaker \<open>b\<close>, as it is or tripped.
\<close>

definition entry_kept :: "Breaker \<Rightarrow> BreakerMap \<Rightarrow> string \<Rightarrow> bool" where
  "entry_kept b m n \<longleftrightarrow> m n = Some b \<or> m n = Some (trip b)"

section \<open>Lemmas: the breaker map and the loops\<close>

lemma isTripped_at_at_key: "isTripped_at (at_key m k) k' = isTripped_at m k'"
  by (simp add: isTripped_at_def at_key_def split: option.splits)

lemma isTripped_at_trip_at: "isTripped_at (trip_at m k) k' \<longleftrightarrow> k' = k \<or> isTripped_at m k'"
  by (simp add: isTripped_at_def trip_at_def trip_def isTripped_def split: option.splits)

lemma isTripped_at_reset_at: "isTripped_at (reset_at m k) k' \<longleftrightarrow> k' \<noteq> k \<and> isTripped_at m k'"
  by (simp add: isTripped_at_def reset_at_def reset_def isTripped_def split: option.splits)

lemma isTripped_at_emplace:
  "isTripped_at (emplace m k (Breaker_of k2)) k' = isTripped_at m k'"
  by (simp add: isTripped_at_def emplace_def Breaker_of_def Breaker_default_def isTripped_def split: option.splits)

lemma sources_loop_tripped:
  "sources_loop ss bs rs tp = (ss', bs', rs', tp') \<Longrightarrow> isTripped_at bs' k = isTripped_at bs k"
  by (induction ss arbitrary: bs rs tp ss' bs' rs' tp')
     (auto simp add: Let_def isTripped_at_at_key split: prod.splits if_splits)

lemma demand_loop_tripped:
  "isTripped_at (fst (demand_loop ls bs td)) k = isTripped_at bs k"
  by (induction ls arbitrary: bs td) (simp_all add: Let_def isTripped_at_at_key)

lemma demand_loop_total:
  "snd (demand_loop ls bs td) =
     foldl (+) td (map demand (filter (\<lambda>l. \<not> isTripped_at bs (lname l) \<and> connected l) ls))"
proof (induction ls arbitrary: bs td)
  case Nil
  show ?case by simp
next
  case (Cons l ls)
  have eq: "(\<lambda>l'. \<not> isTripped_at (at_key bs (lname l)) (lname l') \<and> connected l') =
            (\<lambda>l'. \<not> isTripped_at bs (lname l') \<and> connected l')"
    by (simp add: isTripped_at_at_key)
  show ?case
    by (simp add: Let_def Cons.IH eq isTripped_at_at_key)
qed

lemma collect_loop_tripped:
  "isTripped_at (snd (collect_loop ls is bs acc)) k = isTripped_at bs k"
  by (induction "is" arbitrary: bs acc) (simp_all add: Let_def isTripped_at_at_key)

lemma collect_loop_ptrs:
  "fst (collect_loop ls is bs acc) =
     acc @ filter (\<lambda>i. \<not> connected (ls ! i) \<and> \<not> isTripped_at bs (lname (ls ! i))) is"
proof (induction "is" arbitrary: bs acc)
  case Nil
  show ?case by simp
next
  case (Cons i rest)
  have eq: "\<And>k. (\<lambda>i. \<not> connected (ls ! i) \<and> \<not> isTripped_at (at_key bs k) (lname (ls ! i))) =
            (\<lambda>i. \<not> connected (ls ! i) \<and> \<not> isTripped_at bs (lname (ls ! i)))"
    by (simp add: isTripped_at_at_key)
  show ?case
    by (simp add: Let_def Cons.IH eq isTripped_at_at_key)
qed

section \<open>Lemmas: sorting\<close>

lemma swo_irrefl:
  assumes "strict_weak_order cmp"
  shows "\<not> cmp a a"
proof -
  from assms have "\<forall>a. \<not> cmp a a"
    unfolding strict_weak_order_def by (rule conjunct1)
  then show ?thesis by (rule spec)
qed

lemma swo_trans:
  assumes "strict_weak_order cmp" "cmp a b" "cmp b c"
  shows "cmp a c"
proof -
  from assms(1) have "\<forall>a b c. cmp a b \<longrightarrow> cmp b c \<longrightarrow> cmp a c"
    unfolding strict_weak_order_def by (rule conjunct1 [OF conjunct2])
  from this [rule_format, OF assms(2,3)] show ?thesis .
qed

lemma swo_equiv_trans:
  assumes "strict_weak_order cmp" "\<not> cmp a b \<and> \<not> cmp b a" "\<not> cmp b c \<and> \<not> cmp c b"
  shows "\<not> cmp a c \<and> \<not> cmp c a"
proof -
  from assms(1) have "\<forall>a b c. \<not> cmp a b \<and> \<not> cmp b a \<longrightarrow> \<not> cmp b c \<and> \<not> cmp c b \<longrightarrow> \<not> cmp a c \<and> \<not> cmp c a"
    unfolding strict_weak_order_def by (rule conjunct2 [OF conjunct2])
  from this [rule_format, OF assms(2,3)] show ?thesis .
qed

lemma swo_asym:
  assumes "strict_weak_order cmp" "cmp a b"
  shows "\<not> cmp b a"
proof
  assume "cmp b a"
  from swo_trans [OF assms(1,2) this] swo_irrefl [OF assms(1)] show False by blast
qed

lemma swo_negtrans:
  assumes "strict_weak_order cmp" "\<not> cmp a b" "\<not> cmp b c"
  shows "\<not> cmp a c"
proof
  assume ac: "cmp a c"
  have 1: "\<not> cmp b a" using swo_trans [OF assms(1) _ ac, of b] assms(3) by blast
  have 2: "\<not> cmp c b" using swo_trans [OF assms(1) ac, of b] assms(2) by blast
  from swo_equiv_trans [OF assms(1), of a b c] assms(2,3) 1 2 ac show False by blast
qed

lemma mset_insert_sorted: "mset (insert_sorted cmp x ys) = add_mset x (mset ys)"
  by (induction ys) simp_all

lemma set_insert_sorted: "set (insert_sorted cmp x ys) = insert x (set ys)"
  by (induction ys) auto

lemma sorted_insert_sorted:
  assumes "strict_weak_order cmp" "sorted_wrt (\<lambda>a b. \<not> cmp b a) ys"
  shows "sorted_wrt (\<lambda>a b. \<not> cmp b a) (insert_sorted cmp x ys)"
  using assms(2)
proof (induction ys)
  case Nil
  show ?case by simp
next
  case (Cons y ys)
  show ?case
  proof (cases "cmp y x")
    case True
    have "\<not> cmp x y" by (rule swo_asym [OF assms(1) True])
    with True Cons show ?thesis by (simp add: set_insert_sorted)
  next
    case False
    have "\<forall>z\<in>set ys. \<not> cmp z x"
    proof
      fix z assume "z \<in> set ys"
      then have "\<not> cmp z y" using Cons.prems by simp
      from swo_negtrans [OF assms(1) this False] show "\<not> cmp z x" .
    qed
    with False Cons.prems show ?thesis by simp
  qed
qed

lemma is_std_sort_stable_sort: "is_std_sort stable_sort"
  unfolding is_std_sort_def
proof (intro allI impI conjI)
  fix cmp :: "nat \<Rightarrow> nat \<Rightarrow> bool" and xs
  show "mset (stable_sort cmp xs) = mset xs"
    by (induction xs) (simp_all add: mset_insert_sorted)
  assume swo: "strict_weak_order cmp"
  show "sorted_wrt (\<lambda>a b. \<not> cmp b a) (stable_sort cmp xs)"
    by (induction xs) (simp_all add: sorted_insert_sorted [OF swo])
qed

lemma swo_key_less: "strict_weak_order (\<lambda>a b. (f a :: int) < f b)"
  unfolding strict_weak_order_def by auto

lemma swo_key_greater: "strict_weak_order (\<lambda>a b. (f a :: int) > f b)"
  unfolding strict_weak_order_def by auto

section \<open>Lemmas: the shedding loop\<close>

lemma lname_disconnect [simp]: "lname (disconnect l) = lname l"
  and demand_disconnect [simp]: "demand (disconnect l) = demand l"
  and priority_disconnect [simp]: "priority (disconnect l) = priority l"
  and connected_disconnect [simp]: "connected (disconnect l) = False"
  by (simp_all add: disconnect_def)

lemma lname_reconnect [simp]: "lname (reconnect l) = lname l"
  and demand_reconnect [simp]: "demand (reconnect l) = demand l"
  and priority_reconnect [simp]: "priority (reconnect l) = priority l"
  and connected_reconnect [simp]: "connected (reconnect l) = True"
  by (simp_all add: reconnect_def)

lemma disconnect_idem [simp]: "disconnect (disconnect l) = disconnect l"
  by (simp add: disconnect_def)

lemma reconnect_idem [simp]: "reconnect (reconnect l) = reconnect l"
  by (simp add: reconnect_def)

text \<open>Updating the loads at pointers, one after the other.\<close>

lemma length_foldl_update [simp]:
  "length (foldl (\<lambda>l i. l[i := f (l ! i)]) ls js) = length ls"
  by (induction js arbitrary: ls) simp_all

lemma nth_foldl_update:
  assumes "\<And>x. f (f x) = f x" "i < length ls"
  shows "foldl (\<lambda>l i. l[i := f (l ! i)]) ls js ! i = (if i \<in> set js then f (ls ! i) else ls ! i)"
  using assms(2)
proof (induction js arbitrary: ls)
  case Nil
  show ?case by simp
next
  case (Cons j js)
  have "foldl (\<lambda>l i. l[i := f (l ! i)]) (ls[j := f (ls ! j)]) js ! i =
        (if i \<in> set js then f (ls[j := f (ls ! j)] ! i) else ls[j := f (ls ! j)] ! i)"
    using Cons.IH [of "ls[j := f (ls ! j)]"] Cons.prems by simp
  then show ?case using Cons.prems assms(1) by (cases "i = j") simp_all
qed

lemma field_map_update:
  assumes "\<And>x. h (f x) = h x" "\<forall>i\<in>set js. i < length ls"
  shows "map (\<lambda>i. h (ls[j := f (ls ! j)] ! i)) js = map (\<lambda>i. h (ls ! i)) js"
proof (rule map_cong [OF refl])
  fix i assume "i \<in> set js"
  then have "i < length ls" using assms(2) by simp
  then show "h (ls[j := f (ls ! j)] ! i) = h (ls ! i)"
    using assms(1) by (cases "i = j") simp_all
qed

lemma isTripped_at_foldl_trip:
  "isTripped_at (foldl trip_at bs ns) n \<longleftrightarrow> n \<in> set ns \<or> isTripped_at bs n"
  by (induction ns arbitrary: bs) (auto simp: isTripped_at_trip_at)

text \<open>The shedding loop.\<close>

lemma shed_loop_eq:
  assumes "\<forall>i\<in>set cand. i < length ls"
  shows "shed_loop P cand ls bs D out =
     (foldl (\<lambda>l i. l[i := disconnect (l ! i)]) ls
        (take (shed_count P D (map (\<lambda>i. demand (ls ! i)) cand)) cand),
      foldl trip_at bs
        (map (\<lambda>i. lname (ls ! i)) (take (shed_count P D (map (\<lambda>i. demand (ls ! i)) cand)) cand)),
      demand_after D (map (\<lambda>i. demand (ls ! i)) cand) (shed_count P D (map (\<lambda>i. demand (ls ! i)) cand)),
      out @ map (\<lambda>i. lname (ls ! i)) (take (shed_count P D (map (\<lambda>i. demand (ls ! i)) cand)) cand))"
  using assms
proof (induction cand arbitrary: ls bs D out)
  case Nil
  show ?case by (simp add: demand_after_def)
next
  case (Cons i rest)
  let ?ls' = "ls[i := disconnect (ls ! i)]"
  have valid: "\<forall>j\<in>set rest. j < length ls" using Cons.prems by simp
  have valid': "\<forall>j\<in>set rest. j < length ?ls'" using valid by simp
  have dm: "map (\<lambda>j. demand (?ls' ! j)) rest = map (\<lambda>j. demand (ls ! j)) rest"
    by (rule field_map_update [OF _ valid]) simp
  have nm: "\<And>k. map (\<lambda>j. lname (?ls' ! j)) (take k rest) = map (\<lambda>j. lname (ls ! j)) (take k rest)"
  proof -
    fix k
    have "\<forall>j\<in>set (take k rest). j < length ls" using valid by (meson in_set_takeD)
    then show "map (\<lambda>j. lname (?ls' ! j)) (take k rest) = map (\<lambda>j. lname (ls ! j)) (take k rest)"
      by (rule field_map_update [rotated]) simp
  qed
  show ?case
  proof (cases "P \<ge> D - demand (ls ! i)")
    case True
    then show ?thesis by (simp add: demand_after_def)
  next
    case False
    then show ?thesis
      using Cons.IH [OF valid', of "trip_at bs (lname (ls ! i))" "D - demand (ls ! i)" "out @ [lname (ls ! i)]"]
      by (simp add: demand_after_def dm nm)
  qed
qed

lemma shed_count_le: "shed_count P D ds \<le> length ds"
  by (induction ds arbitrary: D) simp_all

lemma shed_count_pos: "ds \<noteq> [] \<Longrightarrow> 0 < shed_count P D ds"
  by (cases ds) simp_all

lemma shed_count_before:
  "0 < j \<Longrightarrow> j < shed_count P D ds \<Longrightarrow> \<not> P \<ge> demand_after D ds j"
proof (induction ds arbitrary: D j)
  case Nil
  then show ?case by simp
next
  case (Cons d ds)
  from Cons.prems have ne: "\<not> P \<ge> D - d" by (auto split: if_splits)
  with Cons.prems have lt: "j - 1 < shed_count P (D - d) ds" by simp
  obtain j' where j: "j = Suc j'" using Cons.prems(1) by (cases j) simp_all
  show ?case
  proof (cases j')
    case 0
    with j ne show ?thesis by (simp add: demand_after_def)
  next
    case (Suc j'')
    then have "\<not> P \<ge> demand_after (D - d) ds j'"
      using Cons.IH [of j' "D - d"] lt j by simp
    then show ?thesis using j by (simp add: demand_after_def)
  qed
qed

lemma shed_count_stop:
  "shed_count P D ds < length ds \<Longrightarrow> P \<ge> demand_after D ds (shed_count P D ds)"
proof (induction ds arbitrary: D)
  case Nil
  then show ?case by simp
next
  case (Cons d ds)
  show ?case
  proof (cases "P \<ge> D - d")
    case True
    then show ?thesis by (simp add: demand_after_def)
  next
    case False
    with Cons.prems have "shed_count P (D - d) ds < length ds" by simp
    from Cons.IH [OF this] False show ?thesis by (simp add: demand_after_def)
  qed
qed

section \<open>Lemmas: the reconnection loop, the candidates, the two branches\<close>

lemma length_admit [simp]: "length (admit P D ds) = length ds"
  by (induction ds arbitrary: D) simp_all

lemma admit_nth:
  "j < length ds \<Longrightarrow> admit P D ds ! j \<longleftrightarrow> P \<ge> demand_at P D ds j + ds ! j"
proof (induction ds arbitrary: D j)
  case Nil
  then show ?case by simp
next
  case (Cons d ds)
  show ?case
  proof (cases j)
    case 0
    then show ?thesis by simp
  next
    case (Suc j')
    with Cons.prems have "j' < length ds" by simp
    from Cons.IH [OF this] Suc show ?thesis by simp
  qed
qed

lemma demand_at_Suc:
  "j < length ds \<Longrightarrow>
     demand_at P D ds (Suc j) =
       (if P \<ge> demand_at P D ds j + ds ! j then demand_at P D ds j + ds ! j
        else demand_at P D ds j)"
proof (induction ds arbitrary: D j)
  case Nil
  then show ?case by simp
next
  case (Cons d ds)
  show ?case
  proof (cases j)
    case 0
    then show ?thesis by (cases ds) simp_all
  next
    case (Suc j')
    with Cons.prems have "j' < length ds" by simp
    from Cons.IH [OF this] Suc show ?thesis by simp
  qed
qed

lemma set_admitted:
  assumes "length cand = length ds"
  shows "set (admitted P D ds cand) = {cand ! j | j. j < length cand \<and> admit P D ds ! j}"
proof -
  have "\<And>x. x \<in> set (admitted P D ds cand) \<longleftrightarrow> (x, True) \<in> set (zip cand (admit P D ds))"
    unfolding admitted_def by force
  then show ?thesis using assms by (auto simp: in_set_zip)
qed

lemma admitted_subset: "set (admitted P D ds cand) \<subseteq> set cand"
  unfolding admitted_def by (auto dest: set_zip_leftD)

lemma admitted_Cons:
  "admitted P D (d # ds) (i # rest) =
     (if P \<ge> D + d then i # admitted P (D + d) ds rest else admitted P D ds rest)"
  by (simp add: admitted_def)

lemma restore_loop_eq:
  assumes "\<forall>i\<in>set cand. i < length ls"
  shows "restore_loop P cand ls D out =
     (foldl (\<lambda>l i. l[i := reconnect (l ! i)]) ls
        (admitted P D (map (\<lambda>i. demand (ls ! i)) cand) cand),
      demand_at P D (map (\<lambda>i. demand (ls ! i)) cand) (length cand),
      out @ map (\<lambda>i. lname (ls ! i)) (admitted P D (map (\<lambda>i. demand (ls ! i)) cand) cand))"
  using assms
proof (induction cand arbitrary: ls D out)
  case Nil
  show ?case by (simp add: admitted_def)
next
  case (Cons i rest)
  let ?ls' = "ls[i := reconnect (ls ! i)]"
  let ?d = "demand (ls ! i)"
  let ?ds = "map (\<lambda>j. demand (ls ! j)) rest"
  have valid: "\<forall>j\<in>set rest. j < length ls" using Cons.prems by simp
  show ?case
  proof (cases "P \<ge> D + ?d")
    case True
    have valid': "\<forall>j\<in>set rest. j < length ?ls'" using valid by simp
    have dm: "map (\<lambda>j. demand (?ls' ! j)) rest = ?ds"
      by (rule field_map_update [OF _ valid]) simp
    have "\<forall>j\<in>set (admitted P (D + ?d) ?ds rest). j < length ls"
      using valid admitted_subset by blast
    then have nm: "map (\<lambda>j. lname (?ls' ! j)) (admitted P (D + ?d) ?ds rest) =
                   map (\<lambda>j. lname (ls ! j)) (admitted P (D + ?d) ?ds rest)"
      by (rule field_map_update [rotated]) simp
    from True show ?thesis
      using Cons.IH [OF valid', of "D + ?d" "out @ [lname (ls ! i)]"]
      by (simp add: admitted_Cons dm nm)
  next
    case False
    then show ?thesis
      using Cons.IH [OF valid, of D out] by (simp add: admitted_Cons)
  qed
qed

text \<open>The candidates.\<close>

lemma set_connected_loads:
  "set (connected_loads ls) = {i. i < length ls \<and> connected (ls ! i)}"
  by (auto simp: connected_loads_def)

lemma distinct_connected_loads: "distinct (connected_loads ls)"
  by (simp add: connected_loads_def)

lemma std_sort_mset:
  "is_std_sort srt \<Longrightarrow> strict_weak_order cmp \<Longrightarrow> mset (srt cmp xs) = mset xs"
  unfolding is_std_sort_def by simp

lemma std_sort_sorted:
  "is_std_sort srt \<Longrightarrow> strict_weak_order cmp \<Longrightarrow> sorted_wrt (\<lambda>a b. \<not> cmp b a) (srt cmp xs)"
  unfolding is_std_sort_def by simp

lemma mset_shed_candidates:
  "is_std_sort srt \<Longrightarrow> mset (shed_candidates srt g) = mset (connected_loads (loads g))"
  unfolding shed_candidates_def by (rule std_sort_mset [OF _ swo_key_greater])

lemma sorted_shed_candidates:
  assumes "is_std_sort srt"
  shows "sorted_wrt (\<lambda>a b. priority (loads g ! a) \<ge> priority (loads g ! b)) (shed_candidates srt g)"
proof -
  have "sorted_wrt (\<lambda>a b. \<not> priority (loads g ! b) > priority (loads g ! a)) (shed_candidates srt g)"
    unfolding shed_candidates_def
    by (rule std_sort_sorted [OF assms swo_key_greater])
  then show ?thesis by (simp add: not_less)
qed

lemma sources_loop_tripped_fst:
  "isTripped_at (fst (snd (sources_loop ss bs rs tp))) k = isTripped_at bs k"
proof -
  obtain a b c d where eq: "sources_loop ss bs rs tp = (a, b, c, d)"
    by (cases "sources_loop ss bs rs tp") auto
  from sources_loop_tripped [OF eq] eq show ?thesis by simp
qed

lemma cycle_breakers_tripped:
  "isTripped_at (cycle_breakers g) k = isTripped_at (breakers g) k"
  unfolding cycle_breakers_def
  by (simp add: demand_loop_tripped sources_loop_tripped_fst)

lemma collect_candidates:
  "fst (collect_loop (loads g) [0..<length (loads g)] (cycle_breakers g) []) =
     filter (\<lambda>i. \<not> connected (loads g ! i) \<and> \<not> isTripped_at (breakers g) (lname (loads g ! i)))
       [0..<length (loads g)]"
  by (simp add: collect_loop_ptrs cycle_breakers_tripped)


lemma mset_restore_candidates:
  assumes "is_std_sort srt"
  shows "mset (restore_candidates srt g) =
     mset (filter (\<lambda>i. \<not> connected (loads g ! i) \<and> \<not> isTripped_at (breakers g) (lname (loads g ! i)))
       [0..<length (loads g)])"
  unfolding restore_candidates_def collect_candidates
  by (rule std_sort_mset [OF assms swo_key_less])

lemma sorted_restore_candidates:
  assumes "is_std_sort srt"
  shows "sorted_wrt (\<lambda>a b. priority (loads g ! a) \<le> priority (loads g ! b)) (restore_candidates srt g)"
proof -
  have "sorted_wrt (\<lambda>a b. \<not> priority (loads g ! b) < priority (loads g ! a)) (restore_candidates srt g)"
    unfolding restore_candidates_def
    by (rule std_sort_sorted [OF assms swo_key_less])
  then show ?thesis by (simp add: not_less)
qed

lemma totalDemand_of_eq: "totalDemand_of g = connected_demand g"
  unfolding totalDemand_of_def connected_demand_def
  by (simp add: demand_loop_total sources_loop_tripped_fst)

text \<open>The two branches of the cycle.\<close>

lemma simulate_log_deficit:
  assumes "totalPower_of g < totalDemand_of g"
  shows "simulate_log srt g =
     (case shed_loop (totalPower_of g) (shed_candidates srt g) (loads g) (cycle_breakers g)
             (totalDemand_of g) [] of
        (ls, bs3, td, out) \<Rightarrow>
          (g\<lparr>sources := cycle_sources g, loads := ls, breakers := bs3, rand_seq := cycle_rand g\<rparr>,
           \<lparr>log_totalPower = totalPower_of g, log_totalDemand = totalDemand_of g,
            end_totalDemand = td, log_trip = out, log_reconnect = []\<rparr>))"
  using assms
  unfolding simulate_log_def totalPower_of_def totalDemand_of_def cycle_breakers_def
    cycle_sources_def cycle_rand_def shed_candidates_def
  by (simp add: case_prod_beta Let_def)

lemma simulate_log_surplus:
  assumes "\<not> totalPower_of g < totalDemand_of g"
  shows "simulate_log srt g =
     (case restore_loop (totalPower_of g) (restore_candidates srt g) (loads g) (totalDemand_of g) [] of
        (ls, td, out) \<Rightarrow>
          (g\<lparr>sources := cycle_sources g, loads := ls,
             breakers := snd (collect_loop (loads g) [0..<length (loads g)] (cycle_breakers g) []),
             rand_seq := cycle_rand g\<rparr>,
           \<lparr>log_totalPower = totalPower_of g, log_totalDemand = totalDemand_of g,
            end_totalDemand = td, log_trip = [], log_reconnect = out\<rparr>))"
  using assms
  unfolding simulate_log_def totalPower_of_def totalDemand_of_def cycle_breakers_def
    cycle_sources_def cycle_rand_def restore_candidates_def
  by (simp add: case_prod_beta Let_def)

section \<open>Lemmas: what a cycle leaves alone\<close>

lemma shed_loop_keeps_tripped:
  "isTripped_at bs n \<Longrightarrow> isTripped_at (fst (snd (shed_loop P cand ls bs D out))) n"
  by (induction cand arbitrary: ls bs D out) (simp_all add: Let_def isTripped_at_trip_at)

lemma breakers_simulate:
  "breakers (simulate srt g) =
     (if totalPower_of g < totalDemand_of g
      then fst (snd (shed_loop (totalPower_of g) (shed_candidates srt g) (loads g) (cycle_breakers g)
                       (totalDemand_of g) []))
      else snd (collect_loop (loads g) [0..<length (loads g)] (cycle_breakers g) []))"
  by (simp add: simulate_def simulate_log_deficit simulate_log_surplus case_prod_beta)

lemma loads_simulate:
  "loads (simulate srt g) =
     (if totalPower_of g < totalDemand_of g
      then fst (shed_loop (totalPower_of g) (shed_candidates srt g) (loads g) (cycle_breakers g)
                  (totalDemand_of g) [])
      else fst (restore_loop (totalPower_of g) (restore_candidates srt g) (loads g)
                  (totalDemand_of g) []))"
  by (simp add: simulate_def simulate_log_deficit simulate_log_surplus case_prod_beta)

lemma faults_simulate [simp]: "faults (simulate srt g) = faults g"
  by (cases "totalPower_of g < totalDemand_of g")
     (simp_all add: simulate_def simulate_log_deficit simulate_log_surplus case_prod_beta)

lemma sources_simulate: "sources (simulate srt g) = cycle_sources g"
  by (cases "totalPower_of g < totalDemand_of g")
     (simp_all add: simulate_def simulate_log_deficit simulate_log_surplus case_prod_beta)

lemma simulate_keeps_tripped:
  "isTripped_at (breakers g) n \<Longrightarrow> isTripped_at (breakers (simulate srt g)) n"
  by (simp add: breakers_simulate shed_loop_keeps_tripped collect_loop_tripped cycle_breakers_tripped)

lemma isTripped_at_Some: "m k = Some b \<Longrightarrow> isTripped_at m k = tripped b"
  by (simp add: isTripped_at_def isTripped_def)

lemma emplace_present: "m k = Some b \<Longrightarrow> emplace m k b' = m"
  by (simp add: emplace_def)

lemma emplace_other: "k' \<noteq> k \<Longrightarrow> emplace m k b k' = m k'"
  by (simp add: emplace_def split: option.splits)

lemma emplace_same: "emplace m k b k = (case m k of None \<Rightarrow> Some b | Some b' \<Rightarrow> Some b')"
  by (simp add: emplace_def split: option.splits)

section \<open>Lemmas: registration\<close>

lemma sources_loop_append:
  "sources_loop (xs @ ys) bs rs tp =
     (case sources_loop xs bs rs tp of
        (xs', bs1, rs1, tp1) \<Rightarrow>
          (case sources_loop ys bs1 rs1 tp1 of
             (ys', bs2, rs2, tp2) \<Rightarrow> (xs' @ ys', bs2, rs2, tp2)))"
  by (induction xs arbitrary: bs rs tp) (simp_all add: Let_def split: prod.splits)

lemma sources_loop_tripped_last:
  assumes "isTripped_at bs (name src)"
  shows "sources_loop (xs @ [src]) bs rs tp =
     (fst (sources_loop xs bs rs tp) @ [src],
      at_key (fst (snd (sources_loop xs bs rs tp))) (name src),
      snd (snd (sources_loop xs bs rs tp)))"
proof -
  obtain xs' bs1 rs1 tp1 where eq: "sources_loop xs bs rs tp = (xs', bs1, rs1, tp1)"
    by (cases "sources_loop xs bs rs tp") auto
  have "isTripped_at bs1 (name src)"
    using sources_loop_tripped [OF eq] assms by simp
  then show ?thesis
    by (simp add: sources_loop_append eq Let_def isTripped_at_at_key)
qed

lemma register_source_present:
  "breakers g (name src) = Some b \<Longrightarrow> register_source g src = g\<lparr>sources := sources g @ [src]\<rparr>"
  by (simp add: register_source_def emplace_present)

lemma addLoad_present:
  "breakers g (lname l) = Some b \<Longrightarrow> addLoad g l = g\<lparr>loads := loads g @ [l]\<rparr>"
  by (simp add: addLoad_def emplace_present)

section \<open>Lemmas: the result of the two branches\<close>

lemma shed_candidates_set:
  assumes "is_std_sort srt"
  shows "set (shed_candidates srt g) = {i. i < length (loads g) \<and> connected (loads g ! i)}"
    and "distinct (shed_candidates srt g)"
proof -
  note m = mset_shed_candidates [OF assms, of g]
  show "set (shed_candidates srt g) = {i. i < length (loads g) \<and> connected (loads g ! i)}"
    using mset_eq_setD [OF m] by (simp add: set_connected_loads)
  show "distinct (shed_candidates srt g)"
    using mset_eq_imp_distinct_iff [OF m] by (simp add: distinct_connected_loads)
qed

lemma restore_candidates_set:
  assumes "is_std_sort srt"
  shows "set (restore_candidates srt g) =
           {i. i < length (loads g) \<and> \<not> connected (loads g ! i) \<and>
               \<not> isTripped_at (breakers g) (lname (loads g ! i))}"
    and "distinct (restore_candidates srt g)"
proof -
  note m = mset_restore_candidates [OF assms, of g]
  show "set (restore_candidates srt g) =
           {i. i < length (loads g) \<and> \<not> connected (loads g ! i) \<and>
               \<not> isTripped_at (breakers g) (lname (loads g ! i))}"
    using mset_eq_setD [OF m] by auto
  show "distinct (restore_candidates srt g)"
    using mset_eq_imp_distinct_iff [OF m] by simp
qed

lemma deficit_walk:
  fixes g :: "'a::{zero,one,plus,minus,ord} GridManager"
  assumes "is_std_sort srt" and "totalPower_of g < totalDemand_of g"
  defines "cand \<equiv> shed_candidates srt g"
    and "ds \<equiv> map (\<lambda>i. demand (loads g ! i)) (shed_candidates srt g)"
  shows "\<exists>k\<le>length cand. (cand \<noteq> [] \<longrightarrow> 0 < k) \<and>
      (\<forall>j. 0 < j \<and> j < k \<longrightarrow> \<not> totalPower_of g \<ge> demand_after (totalDemand_of g) ds j) \<and>
      (k < length cand \<longrightarrow> totalPower_of g \<ge> demand_after (totalDemand_of g) ds k) \<and>
      log_trip (snd (simulate_log srt g)) = map (\<lambda>i. lname (loads g ! i)) (take k cand) \<and>
      end_totalDemand (snd (simulate_log srt g)) = demand_after (totalDemand_of g) ds k \<and>
      length (loads (simulate srt g)) = length (loads g) \<and>
      (\<forall>i<length (loads g). loads (simulate srt g) ! i =
          (if i \<in> set (take k cand) then disconnect (loads g ! i) else loads g ! i)) \<and>
      (\<forall>n. isTripped_at (breakers (simulate srt g)) n \<longleftrightarrow>
          n \<in> (\<lambda>i. lname (loads g ! i)) ` set (take k cand) \<or> isTripped_at (breakers g) n)"
proof -
  let ?k = "shed_count (totalPower_of g) (totalDemand_of g) ds"
  have valid: "\<forall>i\<in>set cand. i < length (loads g)"
    unfolding cand_def by (simp add: shed_candidates_set [OF assms(1)])
  note sl = shed_loop_eq [OF valid, of "totalPower_of g" "cycle_breakers g" "totalDemand_of g" "[]",
      folded ds_def [unfolded cand_def [symmetric]]]
  note sim = simulate_log_deficit [OF assms(2), of srt, folded cand_def, unfolded sl]
  have len: "length ds = length cand" by (simp add: ds_def cand_def)
  have 1: "?k \<le> length cand" using shed_count_le [of "totalPower_of g" "totalDemand_of g" ds] len by simp
  have 2: "cand \<noteq> [] \<longrightarrow> 0 < ?k"
  proof
    assume "cand \<noteq> []"
    then have "ds \<noteq> []" using len by auto
    then show "0 < ?k" by (rule shed_count_pos)
  qed
  have 3: "\<forall>j. 0 < j \<and> j < ?k \<longrightarrow> \<not> totalPower_of g \<ge> demand_after (totalDemand_of g) ds j"
    using shed_count_before by blast
  have 4: "?k < length cand \<longrightarrow> totalPower_of g \<ge> demand_after (totalDemand_of g) ds ?k"
    using shed_count_stop [of "totalPower_of g" "totalDemand_of g" ds] len by simp
  have 5: "log_trip (snd (simulate_log srt g)) = map (\<lambda>i. lname (loads g ! i)) (take ?k cand)"
    by (simp add: sim)
  have 6: "end_totalDemand (snd (simulate_log srt g)) = demand_after (totalDemand_of g) ds ?k"
    by (simp add: sim)
  have ld: "loads (simulate srt g) = foldl (\<lambda>l i. l[i := disconnect (l ! i)]) (loads g) (take ?k cand)"
    by (simp add: simulate_def sim)
  have 7: "length (loads (simulate srt g)) = length (loads g)"
    by (simp add: ld)
  have 8: "\<forall>i<length (loads g). loads (simulate srt g) ! i =
          (if i \<in> set (take ?k cand) then disconnect (loads g ! i) else loads g ! i)"
    by (simp add: ld nth_foldl_update)
  have 9: "\<forall>n. isTripped_at (breakers (simulate srt g)) n \<longleftrightarrow>
          n \<in> (\<lambda>i. lname (loads g ! i)) ` set (take ?k cand) \<or> isTripped_at (breakers g) n"
    by (simp add: simulate_def sim isTripped_at_foldl_trip cycle_breakers_tripped)
  from 1 2 3 4 5 6 7 8 9 show ?thesis by blast
qed

lemma surplus_walk:
  fixes g :: "'a::{zero,one,plus,minus,ord} GridManager"
  assumes "is_std_sort srt" and "\<not> totalPower_of g < totalDemand_of g"
  defines "cand \<equiv> restore_candidates srt g"
    and "ds \<equiv> map (\<lambda>i. demand (loads g ! i)) (restore_candidates srt g)"
  defines "adm \<equiv> admitted (totalPower_of g) (totalDemand_of g) ds cand"
  shows "set adm = {cand ! j | j. j < length cand \<and>
                      totalPower_of g \<ge> demand_at (totalPower_of g) (totalDemand_of g) ds j + ds ! j}"
    and "log_reconnect (snd (simulate_log srt g)) = map (\<lambda>i. lname (loads g ! i)) adm"
    and "end_totalDemand (snd (simulate_log srt g)) =
           demand_at (totalPower_of g) (totalDemand_of g) ds (length cand)"
    and "length (loads (simulate srt g)) = length (loads g)"
    and "\<forall>i<length (loads g). loads (simulate srt g) ! i =
          (if i \<in> set adm then reconnect (loads g ! i) else loads g ! i)"
    and "\<forall>n. isTripped_at (breakers (simulate srt g)) n = isTripped_at (breakers g) n"
    and "\<forall>j<length cand. connected (loads (simulate srt g) ! (cand ! j)) \<longleftrightarrow>
           totalPower_of g \<ge> demand_at (totalPower_of g) (totalDemand_of g) ds j + ds ! j"
proof -
  have valid: "\<forall>i\<in>set cand. i < length (loads g)"
    unfolding cand_def by (simp add: restore_candidates_set [OF assms(1)])
  have dist: "distinct cand"
    unfolding cand_def by (rule restore_candidates_set [OF assms(1)])
  have disc: "\<forall>i\<in>set cand. \<not> connected (loads g ! i)"
    unfolding cand_def by (simp add: restore_candidates_set [OF assms(1)])
  have len: "length cand = length ds" by (simp add: ds_def cand_def)
  note rl = restore_loop_eq [OF valid, of "totalPower_of g" "totalDemand_of g" "[]",
      folded ds_def [unfolded cand_def [symmetric]], folded adm_def]
  note sim = simulate_log_surplus [OF assms(2), of srt, folded cand_def, unfolded rl]
  show A: "set adm = {cand ! j | j. j < length cand \<and>
                      totalPower_of g \<ge> demand_at (totalPower_of g) (totalDemand_of g) ds j + ds ! j}"
    unfolding adm_def set_admitted [OF len] using len by (auto simp: admit_nth)
  show "log_reconnect (snd (simulate_log srt g)) = map (\<lambda>i. lname (loads g ! i)) adm"
    by (simp add: sim)
  show "end_totalDemand (snd (simulate_log srt g)) =
           demand_at (totalPower_of g) (totalDemand_of g) ds (length cand)"
    by (simp add: sim)
  have ld: "loads (simulate srt g) = foldl (\<lambda>l i. l[i := reconnect (l ! i)]) (loads g) adm"
    by (simp add: simulate_def sim)
  show "length (loads (simulate srt g)) = length (loads g)"
    by (simp add: ld)
  show B: "\<forall>i<length (loads g). loads (simulate srt g) ! i =
          (if i \<in> set adm then reconnect (loads g ! i) else loads g ! i)"
    by (simp add: ld nth_foldl_update)
  show "\<forall>n. isTripped_at (breakers (simulate srt g)) n = isTripped_at (breakers g) n"
    by (simp add: simulate_def sim collect_loop_tripped cycle_breakers_tripped)
  show "\<forall>j<length cand. connected (loads (simulate srt g) ! (cand ! j)) \<longleftrightarrow>
           totalPower_of g \<ge> demand_at (totalPower_of g) (totalDemand_of g) ds j + ds ! j"
  proof (intro allI impI)
    fix j assume j: "j < length cand"
    then have in_c: "cand ! j \<in> set cand" by simp
    have lt: "cand ! j < length (loads g)" using valid in_c by blast
    have nc: "\<not> connected (loads g ! (cand ! j))" using disc in_c by blast
    have "cand ! j \<in> set adm \<longleftrightarrow>
            totalPower_of g \<ge> demand_at (totalPower_of g) (totalDemand_of g) ds j + ds ! j"
    proof
      assume "cand ! j \<in> set adm"
      then obtain j' where j': "j' < length cand" "cand ! j' = cand ! j"
        "totalPower_of g \<ge> demand_at (totalPower_of g) (totalDemand_of g) ds j' + ds ! j'"
        unfolding A by auto
      from dist j j'(1,2) have "j' = j" by (simp add: nth_eq_iff_index_eq)
      with j'(3) show "totalPower_of g \<ge> demand_at (totalPower_of g) (totalDemand_of g) ds j + ds ! j"
        by simp
    next
      assume "totalPower_of g \<ge> demand_at (totalPower_of g) (totalDemand_of g) ds j + ds ! j"
      with j show "cand ! j \<in> set adm" unfolding A by blast
    qed
    moreover have "connected (loads (simulate srt g) ! (cand ! j)) \<longleftrightarrow> cand ! j \<in> set adm"
      using B lt nc by simp
    ultimately show "connected (loads (simulate srt g) ! (cand ! j)) \<longleftrightarrow>
           totalPower_of g \<ge> demand_at (totalPower_of g) (totalDemand_of g) ds j + ds ! j"
      by simp
  qed
qed

section \<open>Lemmas: concrete grids\<close>

lemma stoi_0: "stoi ''0'' = Inr 0"
  by code_simp

lemma reachable_hydro_grid: "reachable stable_sort (hydro_grid p)"
  unfolding hydro_grid_def by (rule r_addSource [OF r_init])

lemma loads_hydro_grid: "loads (hydro_grid p) = []"
  by (simp add: hydro_grid_def addSource_def loads_simulate register_source_def GridManager_init_def
        totalPower_of_def totalDemand_of_def shed_candidates_def restore_candidates_def
        connected_loads_def is_std_sort_stable_sort)

lemma inject_first_load:
  "injectManualFault (addLoad (hydro_grid p) l) ''L0'' =
     Returns (raise_fault (addLoad (hydro_grid p) l) (lname l))"
  by (simp add: injectManualFault_def stoi_0 addLoad_def loads_hydro_grid)

lemma reachable_faulted_grid: "reachable stable_sort faulted_grid"
proof -
  have "reachable stable_sort (addLoad (hydro_grid 60) (Load ''A'' 10 5))"
    by (rule r_addLoad [OF reachable_hydro_grid])
  from r_inject [OF this inject_first_load] show ?thesis
    by (simp add: faulted_grid_def Load_def)
qed

section \<open>Lemmas: no load both connected and tripped\<close>

lemma no_contradiction_nth:
  "no_contradiction g \<longleftrightarrow>
     (\<forall>i<length (loads g). connected (loads g ! i) \<longrightarrow> \<not> isTripped_at (breakers g) (lname (loads g ! i)))"
  unfolding no_contradiction_def by (simp add: all_set_conv_all_nth)

lemma simulate_keeps_no_contradiction:
  fixes g :: "'a::{zero,one,plus,minus,ord} GridManager"
  assumes std: "is_std_sort srt"
    and names: "distinct (map lname (loads g))"
    and inv: "no_contradiction g"
  shows "no_contradiction (simulate srt g)"
proof (cases "totalPower_of g < totalDemand_of g")
  case True
  from deficit_walk [OF std True] obtain k where
    ld: "\<forall>i<length (loads g). loads (simulate srt g) ! i =
            (if i \<in> set (take k (shed_candidates srt g)) then disconnect (loads g ! i) else loads g ! i)"
    and len: "length (loads (simulate srt g)) = length (loads g)"
    and br: "\<forall>n. isTripped_at (breakers (simulate srt g)) n \<longleftrightarrow>
            n \<in> (\<lambda>i. lname (loads g ! i)) ` set (take k (shed_candidates srt g)) \<or>
            isTripped_at (breakers g) n"
    by blast
  show ?thesis
    unfolding no_contradiction_nth len
  proof (intro allI impI)
    fix i assume i: "i < length (loads g)" and c: "connected (loads (simulate srt g) ! i)"
    from ld i c have notin: "i \<notin> set (take k (shed_candidates srt g))"
      and same: "loads (simulate srt g) ! i = loads g ! i"
      by (auto split: if_splits)
    from c same have c0: "connected (loads g ! i)" by simp
    with inv i have nt: "\<not> isTripped_at (breakers g) (lname (loads g ! i))"
      unfolding no_contradiction_nth by blast
    have "lname (loads g ! i) \<notin> (\<lambda>i. lname (loads g ! i)) ` set (take k (shed_candidates srt g))"
    proof
      assume "lname (loads g ! i) \<in> (\<lambda>i. lname (loads g ! i)) ` set (take k (shed_candidates srt g))"
      then obtain i' where i': "i' \<in> set (take k (shed_candidates srt g))"
        and eq: "lname (loads g ! i') = lname (loads g ! i)" by auto
      from i' have "i' \<in> set (shed_candidates srt g)" by (rule in_set_takeD)
      then have lt: "i' < length (loads g)" by (simp add: shed_candidates_set [OF std])
      have "map lname (loads g) ! i' = map lname (loads g) ! i"
        using eq lt i by simp
      with names lt i have "i' = i"
        by (simp add: nth_eq_iff_index_eq del: nth_map)
      with i' notin show False by simp
    qed
    with nt br same show "\<not> isTripped_at (breakers (simulate srt g)) (lname (loads (simulate srt g) ! i))"
      by simp
  qed
next
  case False
  note sw = surplus_walk [OF std False]
  show ?thesis
    unfolding no_contradiction_nth sw(4)
  proof (intro allI impI)
    fix i assume i: "i < length (loads g)" and c: "connected (loads (simulate srt g) ! i)"
    let ?adm = "admitted (totalPower_of g) (totalDemand_of g)
                  (map (\<lambda>i. demand (loads g ! i)) (restore_candidates srt g)) (restore_candidates srt g)"
    have eq: "loads (simulate srt g) ! i = (if i \<in> set ?adm then reconnect (loads g ! i) else loads g ! i)"
      using sw(5) i by blast
    have "\<not> isTripped_at (breakers g) (lname (loads g ! i))"
    proof (cases "i \<in> set ?adm")
      case True
      then have "i \<in> set (restore_candidates srt g)" using admitted_subset by blast
      then show ?thesis by (simp add: restore_candidates_set [OF std])
    next
      case False
      with eq c have "connected (loads g ! i)" by simp
      with inv i show ?thesis unfolding no_contradiction_nth by blast
    qed
    then show "\<not> isTripped_at (breakers (simulate srt g)) (lname (loads (simulate srt g) ! i))"
      using sw(6) eq by simp
  qed
qed

section \<open>Lemmas: sums of demand under exact arithmetic\<close>

lemma foldl_plus_sum_list: "foldl (+) a xs = a + sum_list (xs :: 'a::monoid_add list)"
  by (induction xs arbitrary: a) (simp_all add: add.assoc)

lemma foldl_minus_sum_list: "foldl (-) a xs = a - sum_list (xs :: 'a::ab_group_add list)"
  by (induction xs arbitrary: a) (simp_all add: algebra_simps)

lemma sum_list_filter_nth:
  "sum_list (map h (filter Q xs)) =
     (\<Sum>i\<in>{i. i < length xs \<and> Q (xs ! i)}. (h (xs ! i) :: 'a::comm_monoid_add))"
proof -
  have "sum_list (map h (filter Q xs)) = sum_list (map (\<lambda>x. if Q x then h x else 0) xs)"
    by (rule sum_list_map_filter')
  also have "\<dots> = (\<Sum>i = 0..<length xs. if Q (xs ! i) then h (xs ! i) else 0)"
    by (simp add: sum_list_sum_nth)
  also have "\<dots> = (\<Sum>i\<in>{i \<in> {0..<length xs}. Q (xs ! i)}. h (xs ! i))"
    by (rule sum.inter_filter [symmetric]) simp
  also have "{i \<in> {0..<length xs}. Q (xs ! i)} = {i. i < length xs \<and> Q (xs ! i)}"
    by auto
  finally show ?thesis .
qed

lemma connected_demand_sum:
  fixes g :: "'a::comm_monoid_add GridManager"
  shows "connected_demand g =
     (\<Sum>i\<in>{i. i < length (loads g) \<and> \<not> isTripped_at (breakers g) (lname (loads g ! i)) \<and>
                connected (loads g ! i)}. demand (loads g ! i))"
  unfolding connected_demand_def by (simp add: foldl_plus_sum_list sum_list_filter_nth)

lemma connected_demand_sum_inv:
  fixes g :: "'a::comm_monoid_add GridManager"
  assumes "no_contradiction g"
  shows "connected_demand g =
     (\<Sum>i\<in>{i. i < length (loads g) \<and> connected (loads g ! i)}. demand (loads g ! i))"
proof -
  have "{i. i < length (loads g) \<and> \<not> isTripped_at (breakers g) (lname (loads g ! i)) \<and>
            connected (loads g ! i)} = {i. i < length (loads g) \<and> connected (loads g ! i)}"
    using assms unfolding no_contradiction_nth by blast
  then show ?thesis by (simp add: connected_demand_sum)
qed

lemma distinct_admitted: "distinct cand \<Longrightarrow> distinct (admitted P D ds cand)"
proof -
  assume d: "distinct cand"
  have "distinct (map fst (zip cand (admit P D ds)))"
    using d by (simp add: map_fst_zip_take)
  then show ?thesis unfolding admitted_def by (rule distinct_map_filter)
qed

lemma demand_at_end:
  fixes D :: "'a::{monoid_add,ord}"
  shows "demand_at P D (map h cand) (length cand) =
           D + sum_list (map h (admitted P D (map h cand) cand))"
  by (induction cand arbitrary: D) (simp_all add: admitted_Cons add.assoc admitted_def)

lemma deficit_conservation:
  fixes g :: "'a::{ab_group_add,one,ord} GridManager"
  assumes std: "is_std_sort srt"
    and names: "distinct (map lname (loads g))"
    and inv: "no_contradiction g"
    and deficit: "totalPower_of g < totalDemand_of g"
  shows "end_totalDemand (snd (simulate_log srt g)) = connected_demand (simulate srt g)"
proof -
  let ?cand = "shed_candidates srt g"
  let ?f = "\<lambda>i. demand (loads g ! i)"
  from deficit_walk [OF std deficit] obtain k where
    e: "end_totalDemand (snd (simulate_log srt g)) = demand_after (totalDemand_of g) (map ?f ?cand) k"
    and len: "length (loads (simulate srt g)) = length (loads g)"
    and ld: "\<forall>i<length (loads g). loads (simulate srt g) ! i =
            (if i \<in> set (take k ?cand) then disconnect (loads g ! i) else loads g ! i)"
    by blast
  have dist: "distinct ?cand" by (rule shed_candidates_set [OF std])
  have cset: "set ?cand = {i. i < length (loads g) \<and> connected (loads g ! i)}"
    by (rule shed_candidates_set [OF std])
  have disj: "set (take k ?cand) \<inter> set (drop k ?cand) = {}"
    using dist by (simp add: set_take_disj_set_drop_if_distinct)
  have un: "set (take k ?cand) \<union> set (drop k ?cand) = set ?cand"
    by (metis append_take_drop_id set_append)
  have inv': "no_contradiction (simulate srt g)"
    by (rule simulate_keeps_no_contradiction [OF std names inv])
  have after: "{i. i < length (loads (simulate srt g)) \<and> connected (loads (simulate srt g) ! i)} =
               set (drop k ?cand)"
  proof -
    have "\<And>i. i < length (loads g) \<Longrightarrow>
            connected (loads (simulate srt g) ! i) \<longleftrightarrow> i \<in> set ?cand \<and> i \<notin> set (take k ?cand)"
      using ld cset by simp
    then have "{i. i < length (loads (simulate srt g)) \<and> connected (loads (simulate srt g) ! i)} =
               set ?cand - set (take k ?cand)"
      unfolding len using cset by blast
    also have "\<dots> = set (drop k ?cand)" using disj un by blast
    finally show ?thesis .
  qed
  have same: "\<And>i. i \<in> set (drop k ?cand) \<Longrightarrow> demand (loads (simulate srt g) ! i) = ?f i"
  proof -
    fix i assume "i \<in> set (drop k ?cand)"
    then have "i \<in> set ?cand" by (rule in_set_dropD)
    then have "i < length (loads g)" using cset by simp
    with ld show "demand (loads (simulate srt g) ! i) = ?f i" by simp
  qed
  have "connected_demand (simulate srt g) = (\<Sum>i\<in>set (drop k ?cand). demand (loads (simulate srt g) ! i))"
    by (simp add: connected_demand_sum_inv [OF inv'] after)
  also have "\<dots> = sum ?f (set (drop k ?cand))"
    by (rule sum.cong [OF refl same])
  finally have rhs: "connected_demand (simulate srt g) = sum ?f (set (drop k ?cand))" .
  have "totalDemand_of g = sum ?f (set ?cand)"
    by (simp add: totalDemand_of_eq connected_demand_sum_inv [OF inv] cset)
  also have "\<dots> = sum ?f (set (take k ?cand)) + sum ?f (set (drop k ?cand))"
    unfolding un [symmetric] by (rule sum.union_disjoint [OF _ _ disj]) simp_all
  finally have D: "totalDemand_of g = sum ?f (set (take k ?cand)) + sum ?f (set (drop k ?cand))" .
  have "sum_list (take k (map ?f ?cand)) = sum ?f (set (take k ?cand))"
    using dist by (simp add: take_map sum.distinct_set_conv_list)
  then have "demand_after (totalDemand_of g) (map ?f ?cand) k = sum ?f (set (drop k ?cand))"
    unfolding demand_after_def foldl_minus_sum_list using D by simp
  with e rhs show ?thesis by simp
qed

lemma surplus_conservation:
  fixes g :: "'a::{ab_group_add,one,ord} GridManager"
  assumes std: "is_std_sort srt"
    and names: "distinct (map lname (loads g))"
    and inv: "no_contradiction g"
    and surplus: "\<not> totalPower_of g < totalDemand_of g"
  shows "end_totalDemand (snd (simulate_log srt g)) = connected_demand (simulate srt g)"
proof -
  let ?cand = "restore_candidates srt g"
  let ?f = "\<lambda>i. demand (loads g ! i)"
  let ?adm = "admitted (totalPower_of g) (totalDemand_of g) (map ?f ?cand) ?cand"
  let ?C = "{i. i < length (loads g) \<and> connected (loads g ! i)}"
  note sw = surplus_walk [OF std surplus]
  have dist: "distinct ?adm"
    by (rule distinct_admitted [OF restore_candidates_set(2) [OF std]])
  have sub: "set ?adm \<subseteq> set ?cand" by (rule admitted_subset)
  have valid: "\<forall>i\<in>set ?adm. i < length (loads g) \<and> \<not> connected (loads g ! i)"
    using sub by (auto simp: restore_candidates_set [OF std])
  have disj: "?C \<inter> set ?adm = {}" using valid by blast
  have inv': "no_contradiction (simulate srt g)"
    by (rule simulate_keeps_no_contradiction [OF std names inv])
  have after: "{i. i < length (loads (simulate srt g)) \<and> connected (loads (simulate srt g) ! i)} =
               ?C \<union> set ?adm"
    unfolding sw(4) using sw(5) valid by auto
  have same: "\<And>i. i \<in> ?C \<union> set ?adm \<Longrightarrow> demand (loads (simulate srt g) ! i) = ?f i"
    using sw(5) valid by auto
  have "connected_demand (simulate srt g) = (\<Sum>i\<in>?C \<union> set ?adm. demand (loads (simulate srt g) ! i))"
    by (simp add: connected_demand_sum_inv [OF inv'] after)
  also have "\<dots> = sum ?f (?C \<union> set ?adm)"
    by (rule sum.cong [OF refl same])
  also have "\<dots> = sum ?f ?C + sum ?f (set ?adm)"
    by (rule sum.union_disjoint [OF _ _ disj]) simp_all
  finally have rhs: "connected_demand (simulate srt g) = sum ?f ?C + sum ?f (set ?adm)" .
  have D: "totalDemand_of g = sum ?f ?C"
    by (simp add: totalDemand_of_eq connected_demand_sum_inv [OF inv])
  have "end_totalDemand (snd (simulate_log srt g)) =
          totalDemand_of g + sum_list (map ?f ?adm)"
    using sw(3) by (simp add: demand_at_end)
  also have "sum_list (map ?f ?adm) = sum ?f (set ?adm)"
    using dist by (simp add: sum.distinct_set_conv_list)
  finally show ?thesis using rhs D by simp
qed

lemma log_totalDemand_simulate:
  "log_totalDemand (snd (simulate_log srt g)) = connected_demand g"
  by (cases "totalPower_of g < totalDemand_of g")
     (simp_all add: simulate_log_deficit simulate_log_surplus case_prod_beta totalDemand_of_eq)

section \<open>Lemmas: the fault set\<close>

lemma raise_fault_faults_tripped:
  "faults_tripped g \<Longrightarrow> faults_tripped (raise_fault g n)"
  by (auto simp: faults_tripped_def raise_fault_def set_insort_insert isTripped_at_trip_at)

lemma raise_fault_sorted_distinct:
  "sorted (faults g) \<and> distinct (faults g) \<Longrightarrow>
     sorted (faults (raise_fault g n)) \<and> distinct (faults (raise_fault g n))"
  by (simp add: raise_fault_def sorted_insort_insert distinct_insort_insert)

lemma set_remove_nth:
  assumes "distinct xs" "i < length xs"
  shows "set (take i xs @ drop (Suc i) xs) = set xs - {xs ! i}"
proof -
  have xs: "xs = take i xs @ xs ! i # drop (Suc i) xs"
    using assms(2) by (rule id_take_nth_drop)
  have "distinct (take i xs @ xs ! i # drop (Suc i) xs)"
    using assms(1) xs by simp
  then have "xs ! i \<notin> set (take i xs) \<and> xs ! i \<notin> set (drop (Suc i) xs)"
    by simp
  moreover have "set xs = set (take i xs) \<union> {xs ! i} \<union> set (drop (Suc i) xs)"
    by (subst xs) auto
  ultimately show ?thesis by auto
qed

lemma sorted_distinct_remove_nth:
  assumes "sorted xs \<and> distinct xs"
  shows "sorted (take i xs @ drop (Suc i) xs) \<and> distinct (take i xs @ drop (Suc i) xs)"
proof -
  have sub: "set (drop (Suc i) xs) \<subseteq> set (drop i xs)"
    by (simp add: set_drop_subset_set_drop)
  have a: "sorted (take i xs @ drop i xs)" using assms by simp
  have b: "distinct (take i xs @ drop i xs)" using assms by simp
  from a have s: "\<forall>x\<in>set (take i xs). \<forall>y\<in>set (drop i xs). x \<le> y"
    unfolding sorted_append by blast
  from b have d: "set (take i xs) \<inter> set (drop i xs) = {}"
    unfolding distinct_append by blast
  have "sorted (take i xs)" "sorted (drop (Suc i) xs)" "distinct (take i xs)" "distinct (drop (Suc i) xs)"
    using assms by (simp_all add: sorted_wrt_take sorted_wrt_drop)
  then show ?thesis using s d sub by (auto simp: sorted_append)
qed

lemma clear_fault_faults_tripped:
  assumes "faults_tripped g" "distinct (faults g)" "i < length (faults g)"
  shows "faults_tripped (clear_fault g i)"
proof -
  have "faults (clear_fault g i) = take i (faults g) @ drop (Suc i) (faults g)"
    by (simp add: clear_fault_def)
  then have s: "set (faults (clear_fault g i)) = set (faults g) - {faults g ! i}"
    using set_remove_nth [OF assms(2,3)] by (simp only:)
  have b: "breakers (clear_fault g i) = reset_at (breakers g) (faults g ! i)"
    by (simp add: clear_fault_def)
  show ?thesis
    unfolding faults_tripped_def s b using assms(1)
    by (auto simp: faults_tripped_def isTripped_at_reset_at)
qed

lemma simulate_faults_tripped: "faults_tripped g \<Longrightarrow> faults_tripped (simulate srt g)"
  by (simp add: faults_tripped_def simulate_keeps_tripped)

lemma reachable_fault_invariant:
  "reachable srt g \<Longrightarrow> faults_tripped g \<and> sorted (faults g) \<and> distinct (faults g)"
proof (induction rule: reachable.induct)
  case (r_init rs)
  show ?case by (simp add: GridManager_init_def faults_tripped_def)
next
  case (r_addSource g src)
  have "faults_tripped (register_source g src)"
    using r_addSource.IH by (simp add: faults_tripped_def register_source_def isTripped_at_emplace)
  then have "faults_tripped (addSource srt g src)"
    unfolding addSource_def by (rule simulate_faults_tripped)
  moreover have "faults (addSource srt g src) = faults g"
    by (simp add: addSource_def register_source_def)
  ultimately show ?case using r_addSource.IH by simp
next
  case (r_addLoad g l)
  then show ?case by (simp add: faults_tripped_def addLoad_def isTripped_at_emplace)
next
  case (r_simulate g)
  then show ?case by (simp add: simulate_faults_tripped)
next
  case (r_inject g input g')
  from r_inject.hyps(2) obtain n where "g' = raise_fault g n"
    by (auto simp: injectManualFault_def split: list.splits if_splits sum.splits)
  then show ?case
    using r_inject.IH raise_fault_faults_tripped raise_fault_sorted_distinct by blast
next
  case (r_resolve g i)
  have "faults_tripped (clear_fault g i)"
    using r_resolve.IH r_resolve.hyps(2) by (simp add: clear_fault_faults_tripped)
  then have "faults_tripped (resolved srt g i)"
    unfolding resolved_def by (rule simulate_faults_tripped)
  moreover have "faults (resolved srt g i) = take i (faults g) @ drop (Suc i) (faults g)"
    by (simp add: resolved_def clear_fault_def)
  ultimately show ?case using r_resolve.IH sorted_distinct_remove_nth [of "faults g" i] by simp
next
  case (r_disconnect g i g')
  then show ?case by (auto simp: disconnectLoad_def faults_tripped_def split: if_splits)
next
  case (r_reconnect g i g')
  then show ?case by (auto simp: reconnectLoad_def faults_tripped_def split: if_splits)
qed

lemma reachable_shed_grid: "reachable stable_sort shed_grid"
  unfolding shed_grid_def by (rule r_simulate [OF r_addLoad [OF r_init]])

section \<open>Lemmas: when a cycle connects a load\<close>

lemma simulate_connects:
  fixes g :: "'a::{zero,one,plus,minus,ord} GridManager"
  assumes std: "is_std_sort srt"
    and j: "j < length (loads g)"
    and before: "\<not> connected (loads g ! j)"
    and after: "connected (loads (simulate srt g) ! j)"
  shows "\<not> totalPower_of g < totalDemand_of g"
    and "\<not> isTripped_at (breakers g) (lname (loads g ! j))"
    and "\<exists>m<length (restore_candidates srt g). restore_candidates srt g ! m = j \<and>
           totalPower_of g \<ge>
             demand_at (totalPower_of g) (totalDemand_of g)
               (map (\<lambda>i. demand (loads g ! i)) (restore_candidates srt g)) m + demand (loads g ! j)"
proof -
  show surplus: "\<not> totalPower_of g < totalDemand_of g"
  proof
    assume "totalPower_of g < totalDemand_of g"
    from deficit_walk [OF std this] obtain k where
      "\<forall>i<length (loads g). loads (simulate srt g) ! i =
            (if i \<in> set (take k (shed_candidates srt g)) then disconnect (loads g ! i) else loads g ! i)"
      by blast
    with j have "loads (simulate srt g) ! j =
            (if j \<in> set (take k (shed_candidates srt g)) then disconnect (loads g ! j) else loads g ! j)"
      by blast
    with before after show False by (simp split: if_splits)
  qed
  let ?cand = "restore_candidates srt g"
  let ?ds = "map (\<lambda>i. demand (loads g ! i)) ?cand"
  let ?adm = "admitted (totalPower_of g) (totalDemand_of g) ?ds ?cand"
  note sw = surplus_walk [OF std surplus]
  have "loads (simulate srt g) ! j = (if j \<in> set ?adm then reconnect (loads g ! j) else loads g ! j)"
    using sw(5) j by blast
  with before after have adm: "j \<in> set ?adm" by (simp split: if_splits)
  then have "j \<in> set ?cand" using admitted_subset by blast
  then show "\<not> isTripped_at (breakers g) (lname (loads g ! j))"
    by (simp add: restore_candidates_set [OF std])
  from adm obtain m where m: "m < length ?cand" "?cand ! m = j"
    "totalPower_of g \<ge> demand_at (totalPower_of g) (totalDemand_of g) ?ds m + ?ds ! m"
    unfolding sw(1) by auto
  then show "\<exists>m<length ?cand. ?cand ! m = j \<and>
           totalPower_of g \<ge> demand_at (totalPower_of g) (totalDemand_of g) ?ds m + demand (loads g ! j)"
    by auto
qed

section \<open>Lemmas: the concrete grids are reachable\<close>

lemma simulate_no_loads:
  assumes "\<forall>cmp. srt cmp [] = []" "loads g = []"
  shows "simulate srt g = simulate stable_sort g"
proof -
  have a: "shed_candidates srt g = []"
    unfolding shed_candidates_def connected_loads_def using assms by simp
  have a': "shed_candidates stable_sort g = []"
    unfolding shed_candidates_def connected_loads_def using assms(2) by simp
  have b: "restore_candidates srt g = []"
    unfolding restore_candidates_def using assms by simp
  have b': "restore_candidates stable_sort g = []"
    unfolding restore_candidates_def using assms(2) by simp
  show ?thesis
    by (cases "totalPower_of g < totalDemand_of g")
       (simp_all add: simulate_def simulate_log_deficit simulate_log_surplus a a' b b')
qed

lemma reachable_hydro_grid_any:
  assumes "\<forall>cmp. srt cmp [] = []"
  shows "reachable srt (hydro_grid p)"
proof -
  have "addSource srt (GridManager_init (\<lambda>n. 0)) (PowerSource ''HydroStation'' p False) = hydro_grid p"
    unfolding hydro_grid_def addSource_def
    by (rule simulate_no_loads [of srt, OF assms]) (simp add: register_source_def GridManager_init_def)
  with r_addSource [OF r_init, of srt "\<lambda>n. 0" "PowerSource ''HydroStation'' p False"]
  show ?thesis by simp
qed

lemma reachable_foldl_addLoad:
  "reachable srt g \<Longrightarrow> reachable srt (foldl addLoad g ls)"
  by (induction ls arbitrary: g) (simp_all add: r_addLoad)

lemma reachable_tie_grid: "reachable libstdcxx_sort tie_grid"
  unfolding tie_grid_def
proof (rule reachable_foldl_addLoad)
  have "\<forall>cmp. libstdcxx_sort cmp [] = []" by (simp add: libstdcxx_sort_def)
  then show "reachable libstdcxx_sort (hydro_grid 165)"
    by (rule reachable_hydro_grid_any [of libstdcxx_sort])
qed

lemma reachable_deficit_grid: "reachable stable_sort deficit_grid"
  unfolding deficit_grid_def
  by (intro r_addLoad reachable_hydro_grid)

lemma inject_L0:
  "loads g \<noteq> [] \<Longrightarrow> injectManualFault g ''L0'' = Returns (raise_fault g (lname (hd (loads g))))"
  by (simp add: injectManualFault_def stoi_0 hd_conv_nth)

lemma reachable_faulted_deficit_grid: "reachable stable_sort faulted_deficit_grid"
proof -
  let ?g = "addLoad (addLoad (addLoad (hydro_grid 10) (Load ''A'' 20 5)) (Load ''B'' 15 1)) (Load ''C'' 7 9)"
  have r: "reachable stable_sort ?g"
    by (intro r_addLoad reachable_hydro_grid)
  have l: "loads ?g \<noteq> []" by (simp add: addLoad_def)
  have h: "lname (hd (loads ?g)) = ''A''"
    by (simp add: addLoad_def loads_hydro_grid Load_def)
  from r_inject [OF r inject_L0 [OF l]] show ?thesis
    unfolding faulted_deficit_grid_def h .
qed

lemma reachable_resolve_grid: "reachable stable_sort (resolve_grid p)"
proof -
  let ?l = "Load ''A'' (10::int) 5"
  let ?g = "addLoad (hydro_grid p) ?l"
  let ?g1 = "?g\<lparr>loads := (loads ?g)[0 := disconnect (loads ?g ! 0)]\<rparr>"
  have r: "reachable stable_sort ?g" by (rule r_addLoad [OF reachable_hydro_grid])
  have ld: "loads ?g = [?l]" by (simp add: addLoad_def loads_hydro_grid)
  have d: "disconnectLoad ?g 0 = Returns ?g1" by (simp add: disconnectLoad_def ld)
  have r1: "reachable stable_sort ?g1" by (rule r_disconnect [OF r d])
  have ne: "loads ?g1 \<noteq> []" by (simp add: ld)
  note i = inject_L0 [OF ne]
  have "resolve_grid p = raise_fault ?g1 (lname (hd (loads ?g1)))"
    by (simp add: resolve_grid_def Let_def d i)
  with r_inject [OF r1 i] show ?thesis by simp
qed

section \<open>Lemmas: the statements of fault resolution\<close>

text \<open>
  Apart from the print of line 219, the statements of \<^verbatim>\<open>resolveManualFault\<close> do what the
  specification describes: the fault at the given position is erased and its breaker is
  reset, no load and no other breaker is changed, and the cycle that follows connects a
  load that was disconnected only in its surplus branch, when the load's breaker is not
  tripped and the load passes the capacity check at its turn.
\<close>

lemma resolved_effects:
  fixes g :: "'a::{zero,one,plus,minus,ord} GridManager"
  assumes "is_std_sort srt" and "i < length (faults g)"
  defines "c \<equiv> clear_fault g i"
  shows "resolved srt g i = simulate srt c \<and>
     faults c = take i (faults g) @ drop (Suc i) (faults g) \<and>
     faults (resolved srt g i) = faults c \<and>
     \<not> isTripped_at (breakers c) (faults g ! i) \<and>
     (\<forall>n. n \<noteq> faults g ! i \<longrightarrow> breakers c n = breakers g n) \<and>
     loads c = loads g \<and> sources c = sources g \<and>
     (\<forall>j<length (loads g).
        \<not> connected (loads g ! j) \<longrightarrow> connected (loads (resolved srt g i) ! j) \<longrightarrow>
          \<not> totalPower_of c < totalDemand_of c \<and>
          \<not> isTripped_at (breakers c) (lname (loads g ! j)) \<and>
          (\<exists>m<length (restore_candidates srt c). restore_candidates srt c ! m = j \<and>
             totalPower_of c \<ge>
               demand_at (totalPower_of c) (totalDemand_of c)
                 (map (\<lambda>i. demand (loads c ! i)) (restore_candidates srt c)) m + demand (loads g ! j)))"
proof -
  have l: "loads c = loads g" by (simp add: c_def clear_fault_def)
  have 1: "resolved srt g i = simulate srt c" by (simp add: resolved_def c_def)
  have 2: "faults c = take i (faults g) @ drop (Suc i) (faults g)"
    by (simp add: c_def clear_fault_def)
  have 3: "faults (resolved srt g i) = faults c" by (simp add: 1)
  have 4: "\<not> isTripped_at (breakers c) (faults g ! i)"
    by (simp add: c_def clear_fault_def isTripped_at_reset_at)
  have 5: "\<forall>n. n \<noteq> faults g ! i \<longrightarrow> breakers c n = breakers g n"
    by (simp add: c_def clear_fault_def reset_at_def split: option.splits)
  have 6: "sources c = sources g" by (simp add: c_def clear_fault_def)
  have 7: "\<forall>j<length (loads g).
        \<not> connected (loads g ! j) \<longrightarrow> connected (loads (resolved srt g i) ! j) \<longrightarrow>
          \<not> totalPower_of c < totalDemand_of c \<and>
          \<not> isTripped_at (breakers c) (lname (loads g ! j)) \<and>
          (\<exists>m<length (restore_candidates srt c). restore_candidates srt c ! m = j \<and>
             totalPower_of c \<ge>
               demand_at (totalPower_of c) (totalDemand_of c)
                 (map (\<lambda>i. demand (loads c ! i)) (restore_candidates srt c)) m + demand (loads g ! j))"
    unfolding 1 using simulate_connects [OF assms(1), of _ c] unfolding l by blast
  from 1 2 3 4 5 l 6 7 show ?thesis by blast
qed

section \<open>Lemmas: the entry of a name in the breaker map\<close>

lemma trip_trip [simp]: "trip (trip b) = trip b"
  by (simp add: trip_def)

lemma entry_kept_at_key: "entry_kept b m n \<Longrightarrow> entry_kept b (at_key m k) n"
  by (auto simp: entry_kept_def at_key_def split: option.splits)

lemma entry_kept_trip_at: "entry_kept b m n \<Longrightarrow> entry_kept b (trip_at m k) n"
  by (auto simp: entry_kept_def trip_at_def split: option.splits)

lemma sources_loop_entry:
  "sources_loop ss bs rs tp = (ss', bs', rs', tp') \<Longrightarrow> entry_kept b bs n \<Longrightarrow> entry_kept b bs' n"
  by (induction ss arbitrary: bs rs tp ss' bs' rs' tp')
     (auto simp add: Let_def entry_kept_at_key split: prod.splits if_splits)

lemma sources_loop_entry_fst:
  "entry_kept b bs n \<Longrightarrow> entry_kept b (fst (snd (sources_loop ss bs rs tp))) n"
proof -
  assume e: "entry_kept b bs n"
  obtain a c d f where eq: "sources_loop ss bs rs tp = (a, c, d, f)"
    by (cases "sources_loop ss bs rs tp") auto
  from sources_loop_entry [OF eq e] eq show ?thesis by simp
qed

lemma demand_loop_entry:
  "entry_kept b bs n \<Longrightarrow> entry_kept b (fst (demand_loop ls bs td)) n"
  by (induction ls arbitrary: bs td) (simp_all add: Let_def entry_kept_at_key)

lemma collect_loop_entry:
  "entry_kept b bs n \<Longrightarrow> entry_kept b (snd (collect_loop ls is bs acc)) n"
  by (induction "is" arbitrary: bs acc) (simp_all add: Let_def entry_kept_at_key)

lemma shed_loop_entry:
  "entry_kept b bs n \<Longrightarrow> entry_kept b (fst (snd (shed_loop P cand ls bs D out))) n"
  by (induction cand arbitrary: ls bs D out) (simp_all add: Let_def entry_kept_trip_at)

lemma simulate_entry:
  assumes "breakers g n = Some b"
  shows "entry_kept b (breakers (simulate srt g)) n"
proof -
  have "entry_kept b (breakers g) n" using assms by (simp add: entry_kept_def)
  then have "entry_kept b (cycle_breakers g) n"
    unfolding cycle_breakers_def by (intro demand_loop_entry sources_loop_entry_fst)
  then show ?thesis
    by (simp add: breakers_simulate shed_loop_entry collect_loop_entry)
qed

section \<open>The claims\<close>

text \<open>
  C1, as amended. In a cycle that enters the deficit branch (\<^verbatim>\<open>totalPower < totalDemand\<close>),
  and for any library sort that does what the C++ standard asks of \<^verbatim>\<open>std::sort\<close>, the
  shedding candidates are exactly the connected loads, each once, in descending order of
  priority value. The order among candidates of equal priority is not fixed: the code
  sorts with \<^verbatim>\<open>std::sort\<close>, which is not a stable sort. The engine walks the list from the
  front and sheds the first \<open>k\<close> candidates: it disconnects each, trips the breaker of its
  name and subtracts its demand from \<^verbatim>\<open>totalDemand\<close>. It sheds at least one candidate, it
  goes on as long as \<^verbatim>\<open>totalPower >= totalDemand\<close> fails, and it stops at the first
  candidate after which it holds (or at the end of the list). Nothing else changes in the
  loads, and no other breaker changes its tripped state.
\<close>

theorem deficit_branch_sheds_by_priority:
  fixes g :: "'a::{zero,one,plus,minus,ord} GridManager"
  assumes "is_std_sort srt" and "totalPower_of g < totalDemand_of g"
  defines "cand \<equiv> shed_candidates srt g"
    and "ds \<equiv> map (\<lambda>i. demand (loads g ! i)) (shed_candidates srt g)"
  shows "distinct cand \<and>
     set cand = {i. i < length (loads g) \<and> connected (loads g ! i)} \<and>
     sorted_wrt (\<lambda>a b. priority (loads g ! a) \<ge> priority (loads g ! b)) cand \<and>
     (\<exists>k\<le>length cand. (cand \<noteq> [] \<longrightarrow> 0 < k) \<and>
        (\<forall>j. 0 < j \<and> j < k \<longrightarrow> \<not> totalPower_of g \<ge> demand_after (totalDemand_of g) ds j) \<and>
        (k < length cand \<longrightarrow> totalPower_of g \<ge> demand_after (totalDemand_of g) ds k) \<and>
        log_trip (snd (simulate_log srt g)) = map (\<lambda>i. lname (loads g ! i)) (take k cand) \<and>
        end_totalDemand (snd (simulate_log srt g)) = demand_after (totalDemand_of g) ds k \<and>
        length (loads (simulate srt g)) = length (loads g) \<and>
        (\<forall>i<length (loads g). loads (simulate srt g) ! i =
            (if i \<in> set (take k cand) then disconnect (loads g ! i) else loads g ! i)) \<and>
        (\<forall>n. isTripped_at (breakers (simulate srt g)) n \<longleftrightarrow>
            n \<in> (\<lambda>i. lname (loads g ! i)) ` set (take k cand) \<or> isTripped_at (breakers g) n))"
proof (intro conjI)
  show "distinct cand"
    unfolding cand_def by (rule shed_candidates_set [OF assms(1)])
  show "set cand = {i. i < length (loads g) \<and> connected (loads g ! i)}"
    unfolding cand_def by (rule shed_candidates_set [OF assms(1)])
  show "sorted_wrt (\<lambda>a b. priority (loads g ! a) \<ge> priority (loads g ! b)) cand"
    unfolding cand_def by (rule sorted_shed_candidates [OF assms(1)])
  show "\<exists>k\<le>length cand. (cand \<noteq> [] \<longrightarrow> 0 < k) \<and>
        (\<forall>j. 0 < j \<and> j < k \<longrightarrow> \<not> totalPower_of g \<ge> demand_after (totalDemand_of g) ds j) \<and>
        (k < length cand \<longrightarrow> totalPower_of g \<ge> demand_after (totalDemand_of g) ds k) \<and>
        log_trip (snd (simulate_log srt g)) = map (\<lambda>i. lname (loads g ! i)) (take k cand) \<and>
        end_totalDemand (snd (simulate_log srt g)) = demand_after (totalDemand_of g) ds k \<and>
        length (loads (simulate srt g)) = length (loads g) \<and>
        (\<forall>i<length (loads g). loads (simulate srt g) ! i =
            (if i \<in> set (take k cand) then disconnect (loads g ! i) else loads g ! i)) \<and>
        (\<forall>n. isTripped_at (breakers (simulate srt g)) n \<longleftrightarrow>
            n \<in> (\<lambda>i. lname (loads g ! i)) ` set (take k cand) \<or> isTripped_at (breakers g) n)"
    unfolding cand_def ds_def by (rule deficit_walk [OF assms(1,2)])
qed

theorem deficit_branch_sheds_by_priority_witness:
  "is_std_sort stable_sort \<and> reachable stable_sort deficit_grid \<and>
   totalPower_of deficit_grid < totalDemand_of deficit_grid \<and>
   shed_candidates stable_sort deficit_grid = [3, 2, 0, 1] \<and>
   map (\<lambda>i. priority (loads deficit_grid ! i)) (shed_candidates stable_sort deficit_grid) = [4, 3, 2, 1] \<and>
   log_trip (snd (simulate_log stable_sort deficit_grid)) = [''Mill-D'', ''Shop-C'', ''Factory-A''] \<and>
   end_totalDemand (snd (simulate_log stable_sort deficit_grid)) = 15 \<and>
   distinct (shed_candidates stable_sort deficit_grid) \<and>
   sorted_wrt (\<lambda>a b. priority (loads deficit_grid ! a) \<ge> priority (loads deficit_grid ! b))
     (shed_candidates stable_sort deficit_grid)"
proof -
  have d: "totalPower_of deficit_grid < totalDemand_of deficit_grid" by code_simp
  have c: "shed_candidates stable_sort deficit_grid = [3, 2, 0, 1]" by code_simp
  have p: "map (\<lambda>i. priority (loads deficit_grid ! i)) (shed_candidates stable_sort deficit_grid) = [4, 3, 2, 1]"
    by code_simp
  have t: "log_trip (snd (simulate_log stable_sort deficit_grid)) = [''Mill-D'', ''Shop-C'', ''Factory-A'']"
    by code_simp
  have e: "end_totalDemand (snd (simulate_log stable_sort deficit_grid)) = 15" by code_simp
  from deficit_branch_sheds_by_priority [OF is_std_sort_stable_sort d]
  have "distinct (shed_candidates stable_sort deficit_grid) \<and>
        sorted_wrt (\<lambda>a b. priority (loads deficit_grid ! a) \<ge> priority (loads deficit_grid ! b))
          (shed_candidates stable_sort deficit_grid)"
    by blast
  with is_std_sort_stable_sort reachable_deficit_grid d c p t e show ?thesis by blast
qed

text \<open>
  C1 as stated fails on ties. Seventeen connected loads of equal priority, registered in
  the order \<open>La\<close>, ..., \<open>Lq\<close>, on a supply that one shedding restores. The \<^verbatim>\<open>std::sort\<close> of
  libstdc++ partitions a range of more than 16 elements around a median of three, which
  it first swaps to the front: the sorted candidates start with the ninth load, \<open>Li\<close>, and
  end with the second. The cycle sheds \<open>Li\<close>; \<open>La\<close>, registered first, stays connected.
\<close>

theorem ties_not_shed_in_registration_order:
  "reachable libstdcxx_sort tie_grid \<and>
   totalPower_of tie_grid < totalDemand_of tie_grid \<and>
   map lname (loads tie_grid) =
     [''La'', ''Lb'', ''Lc'', ''Ld'', ''Le'', ''Lf'', ''Lg'', ''Lh'', ''Li'', ''Lj'', ''Lk'', ''Ll'',
      ''Lm'', ''Ln'', ''Lo'', ''Lp'', ''Lq''] \<and>
   map connected (loads tie_grid) = replicate 17 True \<and>
   map priority (loads tie_grid) = replicate 17 5 \<and>
   shed_candidates libstdcxx_sort tie_grid =
     [8, 16, 15, 14, 13, 12, 11, 10, 9, 0, 7, 6, 5, 4, 3, 2, 1] \<and>
   log_trip (snd (simulate_log libstdcxx_sort tie_grid)) = [''Li''] \<and>
   connected (loads (simulate libstdcxx_sort tie_grid) ! 0) \<and>
   \<not> connected (loads (simulate libstdcxx_sort tie_grid) ! 8)"
proof -
  have "totalPower_of tie_grid < totalDemand_of tie_grid" by code_simp
  moreover have "map lname (loads tie_grid) =
     [''La'', ''Lb'', ''Lc'', ''Ld'', ''Le'', ''Lf'', ''Lg'', ''Lh'', ''Li'', ''Lj'', ''Lk'', ''Ll'',
      ''Lm'', ''Ln'', ''Lo'', ''Lp'', ''Lq'']" by code_simp
  moreover have "map connected (loads tie_grid) = replicate 17 True" by code_simp
  moreover have "map priority (loads tie_grid) = replicate 17 5" by code_simp
  moreover have "shed_candidates libstdcxx_sort tie_grid =
     [8, 16, 15, 14, 13, 12, 11, 10, 9, 0, 7, 6, 5, 4, 3, 2, 1]" by code_simp
  moreover have "log_trip (snd (simulate_log libstdcxx_sort tie_grid)) = [''Li'']" by code_simp
  moreover have "connected (loads (simulate libstdcxx_sort tie_grid) ! 0)" by code_simp
  moreover have "\<not> connected (loads (simulate libstdcxx_sort tie_grid) ! 8)" by code_simp
  ultimately show ?thesis using reachable_tie_grid by blast
qed

text \<open>
  C2. In a cycle that enters the other branch (\<^verbatim>\<open>totalPower < totalDemand\<close> is false), and
  for any library sort that does what the C++ standard asks of \<^verbatim>\<open>std::sort\<close>, the
  reconnection candidates are exactly the loads that are disconnected and whose breaker
  is not tripped, each once, in ascending order of priority value. Candidate \<open>j\<close> is
  reconnected if and only if \<^verbatim>\<open>totalPower >= totalDemand + demand\<close> holds at the point where
  it is considered; then its demand is added to \<^verbatim>\<open>totalDemand\<close>, otherwise \<^verbatim>\<open>totalDemand\<close>
  stays, the walk goes on to the next candidate, and the candidate is disconnected when
  the cycle ends. Nothing else changes in the loads, and no breaker changes its tripped
  state.
\<close>

theorem surplus_branch_restores_by_priority:
  fixes g :: "'a::{zero,one,plus,minus,ord} GridManager"
  assumes "is_std_sort srt" and "\<not> totalPower_of g < totalDemand_of g"
  defines "cand \<equiv> restore_candidates srt g"
    and "ds \<equiv> map (\<lambda>i. demand (loads g ! i)) (restore_candidates srt g)"
  defines "at \<equiv> demand_at (totalPower_of g) (totalDemand_of g) ds"
  shows "distinct cand \<and>
     set cand = {i. i < length (loads g) \<and> \<not> connected (loads g ! i) \<and>
                    \<not> isTripped_at (breakers g) (lname (loads g ! i))} \<and>
     sorted_wrt (\<lambda>a b. priority (loads g ! a) \<le> priority (loads g ! b)) cand \<and>
     at 0 = totalDemand_of g \<and>
     (\<forall>j<length cand.
        (connected (loads (simulate srt g) ! (cand ! j)) \<longleftrightarrow> totalPower_of g \<ge> at j + ds ! j) \<and>
        at (Suc j) = (if totalPower_of g \<ge> at j + ds ! j then at j + ds ! j else at j)) \<and>
     end_totalDemand (snd (simulate_log srt g)) = at (length cand) \<and>
     log_trip (snd (simulate_log srt g)) = [] \<and>
     length (loads (simulate srt g)) = length (loads g) \<and>
     (\<forall>i<length (loads g).
        loads (simulate srt g) ! i =
          (if connected (loads (simulate srt g) ! i) then reconnect (loads g ! i) else loads g ! i) \<and>
        (i \<notin> set cand \<longrightarrow> loads (simulate srt g) ! i = loads g ! i)) \<and>
     (\<forall>n. isTripped_at (breakers (simulate srt g)) n = isTripped_at (breakers g) n)"
proof -
  note sw = surplus_walk [OF assms(1,2), folded ds_def, folded cand_def, folded at_def]
  have len: "length ds = length cand" by (simp add: ds_def cand_def)
  have 1: "distinct cand"
    unfolding cand_def by (rule restore_candidates_set [OF assms(1)])
  have 2: "set cand = {i. i < length (loads g) \<and> \<not> connected (loads g ! i) \<and>
                    \<not> isTripped_at (breakers g) (lname (loads g ! i))}"
    unfolding cand_def by (rule restore_candidates_set [OF assms(1)])
  have 3: "sorted_wrt (\<lambda>a b. priority (loads g ! a) \<le> priority (loads g ! b)) cand"
    unfolding cand_def by (rule sorted_restore_candidates [OF assms(1)])
  have 4: "at 0 = totalDemand_of g" by (simp add: at_def)
  have 5: "\<forall>j<length cand.
        (connected (loads (simulate srt g) ! (cand ! j)) \<longleftrightarrow> totalPower_of g \<ge> at j + ds ! j) \<and>
        at (Suc j) = (if totalPower_of g \<ge> at j + ds ! j then at j + ds ! j else at j)"
    using sw(7) len by (simp add: at_def demand_at_Suc)
  have 6: "end_totalDemand (snd (simulate_log srt g)) = at (length cand)"
    by (rule sw(3))
  have 7: "log_trip (snd (simulate_log srt g)) = []"
    by (simp add: simulate_log_surplus [OF assms(2)] case_prod_beta)
  have 8: "length (loads (simulate srt g)) = length (loads g)"
    by (rule sw(4))
  have sub: "set (admitted (totalPower_of g) (totalDemand_of g) ds cand) \<subseteq> set cand"
    by (rule admitted_subset)
  have 9: "\<forall>i<length (loads g).
        loads (simulate srt g) ! i =
          (if connected (loads (simulate srt g) ! i) then reconnect (loads g ! i) else loads g ! i) \<and>
        (i \<notin> set cand \<longrightarrow> loads (simulate srt g) ! i = loads g ! i)"
  proof (intro allI impI)
    fix i assume i: "i < length (loads g)"
    have eq: "loads (simulate srt g) ! i =
          (if i \<in> set (admitted (totalPower_of g) (totalDemand_of g) ds cand)
           then reconnect (loads g ! i) else loads g ! i)"
      using sw(5) i by blast
    have r: "connected (loads g ! i) \<Longrightarrow> reconnect (loads g ! i) = loads g ! i"
      by (simp add: reconnect_def)
    show "loads (simulate srt g) ! i =
          (if connected (loads (simulate srt g) ! i) then reconnect (loads g ! i) else loads g ! i) \<and>
        (i \<notin> set cand \<longrightarrow> loads (simulate srt g) ! i = loads g ! i)"
      using eq sub r by auto
  qed
  have 10: "\<forall>n. isTripped_at (breakers (simulate srt g)) n = isTripped_at (breakers g) n"
    by (rule sw(6))
  from 1 2 3 4 5 6 7 8 9 10 show ?thesis by blast
qed

theorem surplus_branch_restores_by_priority_witness:
  "is_std_sort stable_sort \<and> \<not> totalPower_of surplus_grid < totalDemand_of surplus_grid \<and>
   map lname (loads surplus_grid) = [''House-B'', ''Factory-A'', ''Mill-D'', ''Shop-C''] \<and>
   map connected (loads surplus_grid) = [True, False, False, False] \<and>
   restore_candidates stable_sort surplus_grid = [1, 2, 3] \<and>
   totalPower_of surplus_grid = 60 \<and> totalDemand_of surplus_grid = 15 \<and>
   map connected (loads (simulate stable_sort surplus_grid)) = [True, True, False, True] \<and>
   end_totalDemand (snd (simulate_log stable_sort surplus_grid)) = 55 \<and>
   distinct (restore_candidates stable_sort surplus_grid) \<and>
   sorted_wrt (\<lambda>a b. priority (loads surplus_grid ! a) \<le> priority (loads surplus_grid ! b))
     (restore_candidates stable_sort surplus_grid)"
proof -
  have d: "\<not> totalPower_of surplus_grid < totalDemand_of surplus_grid" by code_simp
  have a: "map lname (loads surplus_grid) = [''House-B'', ''Factory-A'', ''Mill-D'', ''Shop-C'']"
    by code_simp
  have b: "map connected (loads surplus_grid) = [True, False, False, False]" by code_simp
  have c: "restore_candidates stable_sort surplus_grid = [1, 2, 3]" by code_simp
  have p: "totalPower_of surplus_grid = 60" by code_simp
  have q: "totalDemand_of surplus_grid = 15" by code_simp
  have r: "map connected (loads (simulate stable_sort surplus_grid)) = [True, True, False, True]"
    by code_simp
  have e: "end_totalDemand (snd (simulate_log stable_sort surplus_grid)) = 55" by code_simp
  from surplus_branch_restores_by_priority [OF is_std_sort_stable_sort d]
  have "distinct (restore_candidates stable_sort surplus_grid) \<and>
        sorted_wrt (\<lambda>a b. priority (loads surplus_grid ! a) \<le> priority (loads surplus_grid ! b))
          (restore_candidates stable_sort surplus_grid)"
    by blast
  with is_std_sort_stable_sort d a b c p q r e show ?thesis by blast
qed




text \<open>
  C4, as amended. The \<^verbatim>\<open>totalDemand\<close> value a cycle reports is logged before any load is
  shed or reconnected: it equals the sum of the demand of the loads that are
  breaker-untripped and connected in the state the cycle starts from (for every state,
  every sort, and with no law assumed of the arithmetic). The total the cycle goes on to
  keep ends at the sum of the demand of the loads that are breaker-untripped and connected
  in the resulting state, when the names of the loads are pairwise distinct, no load is
  both connected and breaker-tripped when the cycle starts, the library sort does what the
  C++ standard asks, and the arithmetic is exact (an abelian group: rounding is left out).
\<close>

theorem cycle_total_demand_conservation:
  fixes g :: "'a::{zero,one,plus,minus,ord} GridManager"
    and h :: "'b::{ab_group_add,one,ord} GridManager"
  shows "log_totalDemand (snd (simulate_log srt g)) = connected_demand g \<and>
     (is_std_sort srt \<longrightarrow> distinct (map lname (loads h)) \<longrightarrow> no_contradiction h \<longrightarrow>
        end_totalDemand (snd (simulate_log srt h)) = connected_demand (simulate srt h))"
proof (intro conjI impI)
  show "log_totalDemand (snd (simulate_log srt g)) = connected_demand g"
    by (rule log_totalDemand_simulate)
  assume a: "is_std_sort srt" "distinct (map lname (loads h))" "no_contradiction h"
  show "end_totalDemand (snd (simulate_log srt h)) = connected_demand (simulate srt h)"
  proof (cases "totalPower_of h < totalDemand_of h")
    case True
    then show ?thesis by (rule deficit_conservation [OF a])
  next
    case False
    then show ?thesis by (rule surplus_conservation [OF a])
  qed
qed

theorem cycle_total_demand_conservation_witness:
  "is_std_sort stable_sort \<and> distinct (map lname (loads deficit_grid)) \<and>
   no_contradiction deficit_grid \<and>
   log_totalDemand (snd (simulate_log stable_sort deficit_grid)) = 95 \<and>
   connected_demand deficit_grid = 95 \<and>
   end_totalDemand (snd (simulate_log stable_sort deficit_grid)) = 15 \<and>
   connected_demand (simulate stable_sort deficit_grid) = 15"
proof -
  have d: "distinct (map lname (loads deficit_grid))" by code_simp
  have n: "no_contradiction deficit_grid" by code_simp
  have l: "connected_demand deficit_grid = 95" by code_simp
  have e: "connected_demand (simulate stable_sort deficit_grid) = 15" by code_simp
  from cycle_total_demand_conservation [of stable_sort deficit_grid deficit_grid]
    is_std_sort_stable_sort d n l e
  show ?thesis by simp
qed

text \<open>
  C4 as stated fails. Three loads on a 10 kW source; the first, of 20 kW, is under a manual
  fault and still connected. The cycle logs a demand of 22 kW (the other two loads). It
  sheds the 7 kW load, then the faulted load, whose 20 kW it had never counted, and stops
  with its total at -5 kW. The one load that is connected and untripped when the cycle
  ends demands 15 kW: neither the logged total nor the final one is that sum.
\<close>

theorem total_demand_differs_from_connected_sum:
  "reachable stable_sort faulted_deficit_grid \<and>
   log_totalDemand (snd (simulate_log stable_sort faulted_deficit_grid)) = 22 \<and>
   end_totalDemand (snd (simulate_log stable_sort faulted_deficit_grid)) = - 5 \<and>
   log_trip (snd (simulate_log stable_sort faulted_deficit_grid)) = [''C'', ''A''] \<and>
   map connected (loads (simulate stable_sort faulted_deficit_grid)) = [False, True, False] \<and>
   connected_demand (simulate stable_sort faulted_deficit_grid) = 15"
proof -
  have "log_totalDemand (snd (simulate_log stable_sort faulted_deficit_grid)) = 22" by code_simp
  moreover have "end_totalDemand (snd (simulate_log stable_sort faulted_deficit_grid)) = - 5"
    by code_simp
  moreover have "log_trip (snd (simulate_log stable_sort faulted_deficit_grid)) = [''C'', ''A'']"
    by code_simp
  moreover have "map connected (loads (simulate stable_sort faulted_deficit_grid)) = [False, True, False]"
    by code_simp
  moreover have "connected_demand (simulate stable_sort faulted_deficit_grid) = 15" by code_simp
  ultimately show ?thesis using reachable_faulted_deficit_grid by blast
qed

text \<open>
  C5. In every state the program can reach, every name in the fault set has a tripped
  breaker (and the fault set is a set: its list is ascending and without repetition). The
  converse does not hold: a cycle never changes the fault set, and the cycle that sheds a
  load trips its breaker, so after it the load's name has a tripped breaker and no fault
  entry.
\<close>

theorem fault_entries_have_tripped_breakers:
  "(reachable srt g \<longrightarrow> faults_tripped g \<and> sorted (faults g) \<and> distinct (faults g)) \<and>
   faults (simulate srt g) = faults g \<and>
   reachable stable_sort shed_grid \<and>
   isTripped_at (breakers shed_grid) ''A'' \<and>
   ''A'' \<notin> set (faults shed_grid)"
proof -
  have "isTripped_at (breakers shed_grid) ''A''" by code_simp
  moreover have "''A'' \<notin> set (faults shed_grid)" by code_simp
  ultimately show ?thesis
    using reachable_fault_invariant [of srt g] reachable_shed_grid by simp
qed

theorem fault_entries_have_tripped_breakers_witness:
  "reachable stable_sort faulted_grid \<and> faults faulted_grid = [''A''] \<and>
   faults_tripped faulted_grid \<and> isTripped_at (breakers faulted_grid) ''A''"
proof -
  have f: "faults faulted_grid = [''A'']" by code_simp
  have t: "isTripped_at (breakers faulted_grid) ''A''" by code_simp
  from fault_entries_have_tripped_breakers [of stable_sort faulted_grid] reachable_faulted_grid f t
  show ?thesis by simp
qed

text \<open>
  C6. The claim is what the statements of \<^verbatim>\<open>resolveManualFault\<close> set out to do (lemma
  \<open>resolved_effects\<close>), but the code does not get there with defined behaviour: with one
  fault \<open>A\<close> in the set and index 0, line 217 resets the breaker, line 218 erases the
  fault, and line 219 reads through the erased iterator before the cycle of line 220
  runs.
\<close>

theorem fault_resolution_reads_erased_iterator:
  "reachable stable_sort (resolve_grid 5) \<and>
   faults (resolve_grid 5) = [''A''] \<and>
   (0::int) \<le> 0 \<and> nat 0 < length (faults (resolve_grid 5)) \<and>
   faults (clear_fault (resolve_grid 5) (nat 0)) = [] \<and>
   \<not> isTripped_at (breakers (clear_fault (resolve_grid 5) (nat 0))) ''A'' \<and>
   resolveManualFault stable_sort (resolve_grid 5) 0 =
     read_erased (clear_fault (resolve_grid 5) (nat 0)) \<and>
   resolveManualFault stable_sort (resolve_grid 5) 0 = Undefined"
proof -
  have f: "faults (resolve_grid 5) = [''A'']" by code_simp
  have c: "faults (clear_fault (resolve_grid 5) (nat 0)) = []" by code_simp
  have t: "\<not> isTripped_at (breakers (clear_fault (resolve_grid 5) (nat 0))) ''A''" by code_simp
  have r: "resolveManualFault stable_sort (resolve_grid 5) 0 =
     read_erased (clear_fault (resolve_grid 5) (nat 0))"
    by (simp add: resolveManualFault_def f)
  from f c t r reachable_resolve_grid [of 5] show ?thesis
    by (simp add: read_erased_def)
qed

text \<open>
  C7. \<^verbatim>\<open>addSource\<close> appends the source to the sources, creates a breaker for its name if the
  name has none, and then runs a full cycle on that state. \<^verbatim>\<open>addLoad\<close> appends the load to
  the loads and creates a breaker for its name if the name has none, and that is all it
  does: the sources, the generator state, the fault set, the loads registered before, every
  other breaker, and the tripped state of every breaker are as they were, so no cycle ran.
\<close>

theorem registration_effects:
  "addSource srt g src = simulate srt (register_source g src) \<and>
   sources (register_source g src) = sources g @ [src] \<and>
   loads (register_source g src) = loads g \<and>
   faults (register_source g src) = faults g \<and>
   rand_seq (register_source g src) = rand_seq g \<and>
   breakers (register_source g src) (name src) =
     (case breakers g (name src) of None \<Rightarrow> Some \<lparr>id' = name src, tripped = False\<rparr> | Some b \<Rightarrow> Some b) \<and>
   (\<forall>n. n \<noteq> name src \<longrightarrow> breakers (register_source g src) n = breakers g n) \<and>
   loads (addLoad g l) = loads g @ [l] \<and>
   sources (addLoad g l) = sources g \<and>
   faults (addLoad g l) = faults g \<and>
   rand_seq (addLoad g l) = rand_seq g \<and>
   breakers (addLoad g l) (lname l) =
     (case breakers g (lname l) of None \<Rightarrow> Some \<lparr>id' = lname l, tripped = False\<rparr> | Some b \<Rightarrow> Some b) \<and>
   (\<forall>n. n \<noteq> lname l \<longrightarrow> breakers (addLoad g l) n = breakers g n) \<and>
   (\<forall>n. isTripped_at (breakers (addLoad g l)) n = isTripped_at (breakers g) n)"
  by (simp add: addSource_def register_source_def addLoad_def emplace_other emplace_same
        Breaker_of_def isTripped_at_emplace [unfolded Breaker_of_def])

theorem registration_effects_witness:
  "''HydroStation'' \<noteq> lname (Load ''A'' (10::int) 5) \<and>
   breakers (addLoad (hydro_grid 60) (Load ''A'' 10 5)) ''HydroStation'' =
     breakers (hydro_grid 60) ''HydroStation'' \<and>
   breakers (hydro_grid 60) ''A'' = None \<and>
   breakers (addLoad (hydro_grid 60) (Load ''A'' 10 5)) ''A'' = Some \<lparr>id' = ''A'', tripped = False\<rparr> \<and>
   map name (sources main_grid) = [''SolarFarm-A'', ''HydroStation''] \<and>
   map powerOutput (sources main_grid) = [31, 60] \<and>
   map connected (loads main_grid) = [True, True, True]"
proof -
  have n: "''HydroStation'' \<noteq> lname (Load ''A'' (10::int) 5)" by (simp add: Load_def)
  have a: "breakers (hydro_grid 60) ''A'' = None" by code_simp
  have l: "lname (Load ''A'' (10::int) 5) = ''A''" by (simp add: Load_def)
  have m1: "map name (sources main_grid) = [''SolarFarm-A'', ''HydroStation'']" by code_simp
  have m2: "map powerOutput (sources main_grid) = [31, 60]" by code_simp
  have m3: "map connected (loads main_grid) = [True, True, True]" by code_simp
  from registration_effects [of stable_sort "hydro_grid 60" "PowerSource ''S'' 5 False" "Load ''A'' 10 5"]
  show ?thesis using n a l m1 m2 m3 by simp
qed

text \<open>
  C8, as amended. For an index within the loads, manual disconnection sets the
  connectivity flag of that load to false and manual reconnection sets it to true,
  whatever it was; the breakers, the fault set, the sources and every other load are
  untouched. The operations that take an index do not check it: for an index outside the
  loads (for fault resolution, outside the fault set; for fault injection, a number
  outside the loads or the sources) the behaviour of the C++ code is undefined, so no
  error is reported to the caller and nothing is guaranteed about the state.
\<close>

theorem manual_switch_effects:
  "(index < length (loads g) \<longrightarrow>
      (\<exists>g'. disconnectLoad g index = Returns g' \<and>
          loads g' = (loads g)[index := (loads g ! index)\<lparr>connected := False\<rparr>] \<and>
          breakers g' = breakers g \<and> faults g' = faults g \<and> sources g' = sources g \<and>
          rand_seq g' = rand_seq g) \<and>
      (\<exists>g'. reconnectLoad g index = Returns g' \<and>
          loads g' = (loads g)[index := (loads g ! index)\<lparr>connected := True\<rparr>] \<and>
          breakers g' = breakers g \<and> faults g' = faults g \<and> sources g' = sources g \<and>
          rand_seq g' = rand_seq g)) \<and>
   (\<not> index < length (loads g) \<longrightarrow>
      disconnectLoad g index = Undefined \<and> reconnectLoad g index = Undefined) \<and>
   (\<not> (0 \<le> i \<and> nat i < length (faults g)) \<longrightarrow> resolveManualFault srt g i = Undefined) \<and>
   (stoi rest = Inr i \<longrightarrow> \<not> (0 \<le> i \<and> nat i < length (loads g)) \<longrightarrow>
      injectManualFault g (CHR ''L'' # rest) = Undefined) \<and>
   (stoi rest = Inr i \<longrightarrow> \<not> (0 \<le> i \<and> nat i < length (sources g)) \<longrightarrow>
      injectManualFault g (CHR ''S'' # rest) = Undefined)"
  by (simp add: disconnectLoad_def reconnectLoad_def resolveManualFault_def injectManualFault_def
        disconnect_def reconnect_def)

theorem manual_switch_effects_witness:
  "(1::nat) < length (loads deficit_grid) \<and>
   map connected (loads deficit_grid) = [True, True, True, True] \<and>
   map connected (loads (returned deficit_grid (disconnectLoad deficit_grid 1))) =
     [True, False, True, True] \<and>
   \<not> (7::nat) < length (loads deficit_grid) \<and>
   disconnectLoad deficit_grid 7 = Undefined"
proof -
  have l: "(1::nat) < length (loads deficit_grid)" by code_simp
  have l7: "\<not> (7::nat) < length (loads deficit_grid)" by code_simp
  have c: "map connected (loads deficit_grid) = [True, True, True, True]" by code_simp
  have c': "map connected ((loads deficit_grid)[1 := (loads deficit_grid ! 1)\<lparr>connected := False\<rparr>]) =
            [True, False, True, True]" by code_simp
  from manual_switch_effects [of 1 deficit_grid 0 stable_sort "[]"] l
  obtain g' where g': "disconnectLoad deficit_grid 1 = Returns g'"
    "loads g' = (loads deficit_grid)[1 := (loads deficit_grid ! 1)\<lparr>connected := False\<rparr>]"
    by blast
  from manual_switch_effects [of 7 deficit_grid 0 stable_sort "[]"] l7
  have u: "disconnectLoad deficit_grid 7 = Undefined" by blast
  from l l7 c c' g' u show ?thesis by simp
qed

text \<open>
  C8 as stated fails. A grid with one source, no load and no fault: the index 0 is out of
  bounds for the loads and for the fault set. Disconnection, reconnection and fault
  resolution at index 0 are undefined behaviour; none of them reports an error.
\<close>

theorem out_of_bounds_index_not_reported:
  "reachable stable_sort (hydro_grid 60) \<and>
   length (loads (hydro_grid 60)) = 0 \<and> length (faults (hydro_grid 60)) = 0 \<and>
   disconnectLoad (hydro_grid 60) 0 = Undefined \<and>
   reconnectLoad (hydro_grid 60) 0 = Undefined \<and>
   resolveManualFault stable_sort (hydro_grid 60) 0 = Undefined \<and>
   \<not> reports_error (disconnectLoad (hydro_grid 60) 0) \<and>
   \<not> reports_error (reconnectLoad (hydro_grid 60) 0) \<and>
   \<not> reports_error (resolveManualFault stable_sort (hydro_grid 60) 0)"
proof -
  have l: "length (loads (hydro_grid 60)) = 0" by code_simp
  have f: "length (faults (hydro_grid 60)) = 0" by code_simp
  from l f reachable_hydro_grid [of 60] show ?thesis
    by (simp add: disconnectLoad_def reconnectLoad_def resolveManualFault_def)
qed

text \<open>
  C9. A cycle never resets a breaker: whatever the state it starts from, and whatever the
  library's sort does, a breaker that is tripped before the cycle is tripped after it. The
  same holds of every other member function except fault resolution: both registrations,
  fault injection, and the manual disconnection and reconnection of a load.
\<close>

theorem cycle_never_resets_breaker:
  "(isTripped_at (breakers g) n \<longrightarrow> isTripped_at (breakers (simulate srt g)) n) \<and>
   (isTripped_at (breakers g) n \<longrightarrow> isTripped_at (breakers (addSource srt g src)) n) \<and>
   (isTripped_at (breakers g) n \<longrightarrow> isTripped_at (breakers (addLoad g l)) n) \<and>
   (isTripped_at (breakers g) n \<longrightarrow> injectManualFault g input = Returns g1 \<longrightarrow>
      isTripped_at (breakers g1) n) \<and>
   (isTripped_at (breakers g) n \<longrightarrow> disconnectLoad g i = Returns g2 \<longrightarrow>
      isTripped_at (breakers g2) n) \<and>
   (isTripped_at (breakers g) n \<longrightarrow> reconnectLoad g i = Returns g3 \<longrightarrow>
      isTripped_at (breakers g3) n)"
proof (intro conjI impI)
  assume t: "isTripped_at (breakers g) n"
  show "isTripped_at (breakers (simulate srt g)) n"
    using t by (rule simulate_keeps_tripped)
  have "isTripped_at (breakers (register_source g src)) n"
    using t by (simp add: register_source_def isTripped_at_emplace)
  then show "isTripped_at (breakers (addSource srt g src)) n"
    unfolding addSource_def by (rule simulate_keeps_tripped)
  show "isTripped_at (breakers (addLoad g l)) n"
    using t by (simp add: addLoad_def isTripped_at_emplace)
next
  assume t: "isTripped_at (breakers g) n" and r: "injectManualFault g input = Returns g1"
  have "\<And>k. isTripped_at (breakers (raise_fault g k)) n"
    using t by (simp add: raise_fault_def isTripped_at_trip_at)
  with r show "isTripped_at (breakers g1) n"
    by (auto simp: injectManualFault_def split: list.splits if_splits sum.splits)
next
  assume "isTripped_at (breakers g) n" "disconnectLoad g i = Returns g2"
  then show "isTripped_at (breakers g2) n"
    by (auto simp: disconnectLoad_def split: if_splits)
next
  assume "isTripped_at (breakers g) n" "reconnectLoad g i = Returns g3"
  then show "isTripped_at (breakers g3) n"
    by (auto simp: reconnectLoad_def split: if_splits)
qed

theorem cycle_never_resets_breaker_witness:
  "isTripped_at (breakers faulted_grid) ''A'' \<and>
   isTripped_at (breakers (simulate stable_sort faulted_grid)) ''A'' \<and>
   isTripped_at (breakers (addLoad faulted_grid (Load ''B'' 5 1))) ''A''"
proof -
  have t: "isTripped_at (breakers faulted_grid) ''A''" by code_simp
  from cycle_never_resets_breaker
         [of faulted_grid "''A''" stable_sort "PowerSource ''S'' 5 False" "Load ''B'' 5 1"] t
  show ?thesis by blast
qed

text \<open>
  C10, as amended. When the name of a registered component already has a breaker, the
  insertion into the breaker map does nothing: after \<^verbatim>\<open>addLoad\<close>, and after the insertion
  of \<^verbatim>\<open>addSource\<close>, the name has the breaker it had, with its tripped state. The cycle that
  \<^verbatim>\<open>addSource\<close> then runs can trip that breaker and does nothing else to it: when
  \<^verbatim>\<open>addSource\<close> returns the entry is the breaker it was, as it was or tripped. If the
  breaker is tripped, the new component is left out of the totals of a cycle: the cycle
  that \<^verbatim>\<open>addSource\<close> runs neither simulates the new source nor counts its output, and the
  breaker is still tripped when \<^verbatim>\<open>addSource\<close> returns; the demand a cycle sums after
  \<^verbatim>\<open>addLoad\<close> is the demand it would have summed before.
\<close>

theorem registration_keeps_existing_breaker:
  "(breakers g (lname l) = Some b \<longrightarrow> breakers (addLoad g l) (lname l) = Some b) \<and>
   (breakers g (name src) = Some b' \<longrightarrow> breakers (register_source g src) (name src) = Some b') \<and>
   (breakers g (name src) = Some b' \<longrightarrow>
      breakers (addSource srt g src) (name src) = Some b' \<or>
      breakers (addSource srt g src) (name src) = Some (trip b')) \<and>
   (breakers g (name src) = Some b' \<longrightarrow> tripped b' \<longrightarrow>
      totalPower_of (register_source g src) = totalPower_of g \<and>
      cycle_sources (register_source g src) = cycle_sources g @ [src] \<and>
      cycle_rand (register_source g src) = cycle_rand g \<and>
      isTripped_at (breakers (addSource srt g src)) (name src)) \<and>
   (breakers g (lname l) = Some b \<longrightarrow> tripped b \<longrightarrow>
      totalDemand_of (addLoad g l) = totalDemand_of g)"
proof (intro conjI impI)
  assume "breakers g (lname l) = Some b"
  then show "breakers (addLoad g l) (lname l) = Some b"
    by (simp add: addLoad_def emplace_same)
next
  assume "breakers g (name src) = Some b'"
  then show "breakers (register_source g src) (name src) = Some b'"
    by (simp add: register_source_def emplace_same)
next
  assume "breakers g (name src) = Some b'"
  then have "breakers (register_source g src) (name src) = Some b'"
    by (simp add: register_source_def emplace_same)
  from simulate_entry [OF this, of srt]
  show "breakers (addSource srt g src) (name src) = Some b' \<or>
        breakers (addSource srt g src) (name src) = Some (trip b')"
    by (simp add: addSource_def entry_kept_def)
next
  assume p: "breakers g (name src) = Some b'" and t: "tripped b'"
  have tr: "isTripped_at (breakers g) (name src)"
    using p t by (simp add: isTripped_at_Some)
  note eq = sources_loop_tripped_last [OF tr, of "sources g" "rand_seq g" 0]
  show "totalPower_of (register_source g src) = totalPower_of g"
    by (simp add: register_source_present [OF p] totalPower_of_def eq)
  show "cycle_sources (register_source g src) = cycle_sources g @ [src]"
    by (simp add: register_source_present [OF p] cycle_sources_def eq)
  show "cycle_rand (register_source g src) = cycle_rand g"
    by (simp add: register_source_present [OF p] cycle_rand_def eq)
  have "isTripped_at (breakers (register_source g src)) (name src)"
    using tr by (simp add: register_source_present [OF p])
  then show "isTripped_at (breakers (addSource srt g src)) (name src)"
    unfolding addSource_def by (rule simulate_keeps_tripped)
next
  assume p: "breakers g (lname l) = Some b" and t: "tripped b"
  have tr: "isTripped_at (breakers g) (lname l)"
    using p t by (simp add: isTripped_at_Some)
  show "totalDemand_of (addLoad g l) = totalDemand_of g"
    using tr by (simp add: totalDemand_of_eq connected_demand_def addLoad_present [OF p])
qed

theorem registration_keeps_existing_breaker_witness:
  "breakers shed_grid ''A'' = Some \<lparr>id' = ''A'', tripped = True\<rparr> \<and>
   breakers (addLoad shed_grid (Load ''A'' 7 1)) ''A'' = Some \<lparr>id' = ''A'', tripped = True\<rparr> \<and>
   totalDemand_of (addLoad shed_grid (Load ''A'' 7 1)) = totalDemand_of shed_grid \<and>
   totalPower_of (register_source shed_grid (PowerSource ''A'' 60 False)) = totalPower_of shed_grid \<and>
   isTripped_at (breakers (addSource stable_sort shed_grid (PowerSource ''A'' 60 False))) ''A''"
proof -
  have p: "breakers shed_grid ''A'' = Some \<lparr>id' = ''A'', tripped = True\<rparr>" by code_simp
  have l: "lname (Load ''A'' (7::int) 1) = ''A''" by (simp add: Load_def)
  have s: "name (PowerSource ''A'' (60::int) False) = ''A''" by (simp add: PowerSource_def)
  from registration_keeps_existing_breaker
         [of shed_grid "Load ''A'' 7 1" "\<lparr>id' = ''A'', tripped = True\<rparr>"
             "PowerSource ''A'' 60 False" "\<lparr>id' = ''A'', tripped = True\<rparr>" stable_sort]
  show ?thesis using p l s by simp
qed

text \<open>
  C10 as stated fails twice. A source registered under the name of a load: the breaker
  \<open>A\<close> of the load is not tripped before \<^verbatim>\<open>addSource\<close> and is tripped after it, because the
  cycle that \<^verbatim>\<open>addSource\<close> runs sheds the load. A load registered under a tripped name: the
  next cycle does not count its 7 kW, finds a deficit (20 kW of \<open>C\<close> on 15 kW), lists the
  new load as a shedding candidate, sheds it and stops; the load was not left out of the
  cycle, and \<open>C\<close> stays connected.
\<close>

theorem registration_under_existing_name:
  "reachable stable_sort name_collision_grid \<and>
   breakers name_collision_grid ''A'' = Some \<lparr>id' = ''A'', tripped = False\<rparr> \<and>
   breakers (addSource stable_sort name_collision_grid (PowerSource ''A'' 5 False)) ''A'' =
     Some \<lparr>id' = ''A'', tripped = True\<rparr> \<and>
   reachable stable_sort tripped_name_grid \<and>
   map lname (loads tripped_name_grid) = [''B'', ''B'', ''C''] \<and>
   map connected (loads tripped_name_grid) = [False, True, True] \<and>
   isTripped_at (breakers tripped_name_grid) ''B'' \<and>
   totalPower_of tripped_name_grid = 15 \<and>
   totalDemand_of tripped_name_grid = 20 \<and>
   shed_candidates stable_sort tripped_name_grid = [1, 2] \<and>
   log_trip (snd (simulate_log stable_sort tripped_name_grid)) = [''B''] \<and>
   map connected (loads (simulate stable_sort tripped_name_grid)) = [False, False, True]"
proof -
  have r1: "reachable stable_sort name_collision_grid"
    unfolding name_collision_grid_def by (rule r_addLoad [OF r_init])
  have r2: "reachable stable_sort tripped_name_grid"
    unfolding tripped_name_grid_def
    by (intro r_addLoad r_simulate reachable_hydro_grid)
  have "breakers name_collision_grid ''A'' = Some \<lparr>id' = ''A'', tripped = False\<rparr>" by code_simp
  moreover have "breakers (addSource stable_sort name_collision_grid (PowerSource ''A'' 5 False)) ''A'' =
     Some \<lparr>id' = ''A'', tripped = True\<rparr>" by code_simp
  moreover have "map lname (loads tripped_name_grid) = [''B'', ''B'', ''C'']" by code_simp
  moreover have "map connected (loads tripped_name_grid) = [False, True, True]" by code_simp
  moreover have "isTripped_at (breakers tripped_name_grid) ''B''" by code_simp
  moreover have "totalPower_of tripped_name_grid = 15" by code_simp
  moreover have "totalDemand_of tripped_name_grid = 20" by code_simp
  moreover have "shed_candidates stable_sort tripped_name_grid = [1, 2]" by code_simp
  moreover have "log_trip (snd (simulate_log stable_sort tripped_name_grid)) = [''B'']" by code_simp
  moreover have "map connected (loads (simulate stable_sort tripped_name_grid)) = [False, False, True]"
    by code_simp
  ultimately show ?thesis using r1 r2 by blast
qed

end
